theory Spec2Isabelle
  imports Complex_Main "HOL-Library.AList" "HOL-Library.Sublist"
begin

section \<open>Strings\<close>

text \<open>
  A Python \<open>str\<close> is a sequence of Unicode code points, so it is modelled as a list of
  natural numbers. \<open>ustr\<close> writes an ASCII literal as such a list.
\<close>

type_synonym pystr = "nat list"

definition ustr :: "string \<Rightarrow> pystr" where
  "ustr s = map of_char s"

text \<open>
  \<open>str.lower()\<close>. The ASCII capitals go to their small letters and the other ASCII
  code points stay. Two code points beyond ASCII have a lowercase form that holds an ASCII
  letter: U+0130 (capital I with dot above) becomes \<open>i\<close> followed by U+0307, and U+212A
  (the Kelvin sign) becomes \<open>k\<close>. The lowercase forms of the remaining code points are the
  table of the Unicode database, which is no part of the repository: it is the parameter
  \<open>tbl\<close>. (Python picks between the two small sigmas by the context of a capital sigma;
  a table by code point does not tell them apart.)
\<close>

definition lower_cp :: "(nat \<Rightarrow> pystr) \<Rightarrow> nat \<Rightarrow> pystr" where
  "lower_cp tbl c =
     (if 65 \<le> c \<and> c \<le> 90 then [c + 32]
      else if c < 128 then [c]
      else if c = 304 then [105, 775]
      else if c = 8490 then [107]
      else tbl c)"

definition py_lower :: "(nat \<Rightarrow> pystr) \<Rightarrow> pystr \<Rightarrow> pystr" where
  "py_lower tbl s = concat (map (lower_cp tbl) s)"

text \<open>\<open>str.isspace\<close> for one code point, and \<open>text.strip()\<close> being empty (falsy).\<close>

definition py_isspace :: "nat \<Rightarrow> bool" where
  "py_isspace c =
     ((9 \<le> c \<and> c \<le> 13) \<or> (28 \<le> c \<and> c \<le> 32) \<or> c = 133 \<or> c = 160 \<or> c = 5760
      \<or> (8192 \<le> c \<and> c \<le> 8202) \<or> c = 8232 \<or> c = 8233 \<or> c = 8239 \<or> c = 8287
      \<or> c = 12288)"

definition py_strip :: "pystr \<Rightarrow> pystr" where
  "py_strip s = rev (dropWhile py_isspace (rev (dropWhile py_isspace s)))"

text \<open>\<open>x in y\<close> on strings: \<open>x\<close> is a contiguous piece of \<open>y\<close>.\<close>

fun is_prefix :: "pystr \<Rightarrow> pystr \<Rightarrow> bool" where
  "is_prefix [] ys = True"
| "is_prefix (x # xs) [] = False"
| "is_prefix (x # xs) (y # ys) = (x = y \<and> is_prefix xs ys)"

fun py_in :: "pystr \<Rightarrow> pystr \<Rightarrow> bool" where
  "py_in xs [] = (xs = [])"
| "py_in xs (y # ys) = (is_prefix xs (y # ys) \<or> py_in xs ys)"

section \<open>Tokenizer\<close>

text \<open>The character class \<open>[a-z0-9]\<close> of the tokenizer's regular expression.\<close>

definition is_alnum :: "nat \<Rightarrow> bool" where
  "is_alnum c = ((97 \<le> c \<and> c \<le> 122) \<or> (48 \<le> c \<and> c \<le> 57))"

text \<open>
  \<open>re.findall(r"[a-z0-9]+", s)\<close>: scan from the left; where the class matches, take the
  longest match (the \<open>+\<close> is greedy) and go on behind it, elsewhere move one code point on.
\<close>

function findall_alnum :: "pystr \<Rightarrow> pystr list" where
  "findall_alnum [] = []"
| "findall_alnum (c # cs) =
     (if is_alnum c then (c # takeWhile is_alnum cs) # findall_alnum (dropWhile is_alnum cs)
      else findall_alnum cs)"
  by pat_completeness auto
termination
  by (relation "measure length") (auto simp: length_dropWhile_le less_Suc_eq_le)

definition tokenize :: "(nat \<Rightarrow> pystr) \<Rightarrow> pystr \<Rightarrow> pystr list" where
  "tokenize tbl text = findall_alnum (py_lower tbl text)"

text \<open>
  The words of the specification: the tokens are the maximal runs of code points of the
  class, in order. \<open>maximal_runs P s ts\<close> reads: \<open>s\<close> is separators, then the first run,
  then a rest that is empty or starts with a separator, and so on.
\<close>

inductive maximal_runs :: "('a \<Rightarrow> bool) \<Rightarrow> 'a list \<Rightarrow> 'a list list \<Rightarrow> bool"
  for P :: "'a \<Rightarrow> bool" where
  no_run: "list_all (\<lambda>c. \<not> P c) s \<Longrightarrow> maximal_runs P s []"
| one_run: "list_all (\<lambda>c. \<not> P c) pre \<Longrightarrow> t \<noteq> [] \<Longrightarrow> list_all P t \<Longrightarrow>
     (case rest of [] \<Rightarrow> True | r # _ \<Rightarrow> \<not> P r) \<Longrightarrow> maximal_runs P rest ts \<Longrightarrow>
     maximal_runs P (pre @ t @ rest) (t # ts)"

section \<open>Data model\<close>

text \<open>
  The two dataclasses. Python's \<open>float\<close> is modelled by \<open>real\<close>: sums, products and
  comparisons are those of the real numbers, without rounding.
\<close>

record Message =
  role :: pystr
  "text" :: pystr
  timestamp :: "real option"

record Conversation =
  conv_id :: pystr
  title :: pystr
  create_time :: "real option"
  update_time :: "real option"
  messages :: "Message list"
  model_slug :: pystr

text \<open>\<open>" ".join(parts)\<close> and \<open>"\n".join(texts)\<close>.\<close>

fun py_join :: "pystr \<Rightarrow> pystr list \<Rightarrow> pystr" where
  "py_join sep [] = []"
| "py_join sep [x] = x"
| "py_join sep (x # y # ys) = x @ sep @ py_join sep (y # ys)"

definition full_text :: "Conversation \<Rightarrow> pystr" where
  "full_text c = py_join [32] (title c # map text (messages c))"

text \<open>\<open>c.create_time or 0\<close>, the sort key of the collection and the time the date filter reads.\<close>

definition time_or_0 :: "real option \<Rightarrow> real" where
  "time_or_0 t = (case t of None \<Rightarrow> 0 | Some x \<Rightarrow> if x = 0 then 0 else x)"

section \<open>The export as parsed JSON\<close>

text \<open>
  The parser reads the value \<open>json.loads\<close> returns. A dict keeps its keys in insertion
  order, as Python's does, and is a list of pairs with distinct keys.

  For \<open>"parent"\<close>, \<open>"message"\<close>, \<open>"content"\<close>, \<open>"children"\<close>, \<open>"mapping"\<close> and the times the
  code does the same with a key that is absent and with a key that holds \<open>null\<close> (\<open>get\<close>
  returns \<open>None\<close>, or a falsy value is tested), so such a field is an option, or a list
  that is empty. For \<open>"author"\<close>, \<open>"parts"\<close>, the \<open>"text"\<close> of a part and the flat
  \<open>"messages"\<close> array it does not: an absent key gets the default, and \<open>null\<close> makes the code
  raise. These fields are a \<open>json_field\<close>, which keeps the two cases apart. The ids, the
  title, the model slug and a role are strings where they are present.

  A part of a content object is a string, a dict (of which only the \<open>"text"\<close> field is read)
  or something else. A content is a string or a dict, of which only \<open>"parts"\<close> is read;
  \<open>content_other_keys\<close> says whether the dict has any other key, which decides whether the
  dict is falsy (empty).
\<close>

datatype 'a json_field = Absent | Null | Present 'a

datatype py_error = AttributeError | TypeError

datatype raw_part = PartStr pystr | PartObj "pystr json_field" | PartOther

datatype raw_content =
  ContentStr pystr
| ContentObj (content_other_keys: bool) (content_parts: "raw_part list json_field")

datatype raw_author = RawAuthor (author_role: "pystr option")

datatype raw_message =
  RawMessage (msg_author: "raw_author json_field") (msg_content: "raw_content option")
    (msg_create_time: "real option")

datatype raw_node =
  RawNode (node_parent: "pystr option") (node_children: "pystr list")
    (node_message: "raw_message option")

type_synonym raw_mapping = "(pystr \<times> raw_node) list"

datatype flat_message =
  FlatMessage (flat_role: "pystr option") (flat_author: "raw_author json_field")
    (flat_content: "raw_content option") (flat_create_time: "real option")

datatype raw_entry =
  RawEntry (entry_id: "pystr option") (entry_conversation_id: "pystr option")
    (entry_title: "pystr option") (entry_create_time: "real option")
    (entry_update_time: "real option") (entry_default_model_slug: "pystr option")
    (entry_mapping: raw_mapping) (entry_messages: "flat_message option list json_field")

text \<open>\<open>d.get(k, default)\<close> on a dict kept as a list of pairs.\<close>

definition dict_get :: "('k \<times> 'v) list \<Rightarrow> 'k \<Rightarrow> 'v \<Rightarrow> 'v" where
  "dict_get d k dflt = (case map_of d k of None \<Rightarrow> dflt | Some v \<Rightarrow> v)"

section \<open>Text extraction\<close>

text \<open>
  The loop of \<open>_extract_text\<close> over the parts: the list \<open>texts\<close>. The \<open>"text"\<close> of a dict
  part is appended as it is, so a \<open>null\<close> there puts \<open>None\<close> into the list.
\<close>

fun part_texts :: "raw_part list \<Rightarrow> pystr option list" where
  "part_texts [] = []"
| "part_texts (PartStr s # ps) = Some s # part_texts ps"
| "part_texts (PartObj (Present t) # ps) = Some t # part_texts ps"
| "part_texts (PartObj Null # ps) = None # part_texts ps"
| "part_texts (PartObj Absent # ps) = part_texts ps"
| "part_texts (PartOther # ps) = part_texts ps"

text \<open>\<open>"\n".join(texts)\<close>, which raises \<open>TypeError\<close> when an item is \<open>None\<close>.\<close>

definition join_texts :: "pystr option list \<Rightarrow> py_error + pystr" where
  "join_texts texts =
     (case those texts of None \<Rightarrow> Inl TypeError | Some ts \<Rightarrow> Inr (py_join [10] ts))"

text \<open>
  \<open>_extract_text\<close>. \<open>content.get("parts", [])\<close> is \<open>[]\<close> for an absent key and \<open>None\<close> for
  \<open>null\<close>, and the loop over \<open>None\<close> raises \<open>TypeError\<close>.
\<close>

fun extract_text :: "raw_content \<Rightarrow> py_error + pystr" where
  "extract_text (ContentStr s) = Inr s"
| "extract_text (ContentObj other Absent) = join_texts (part_texts [])"
| "extract_text (ContentObj other Null) = Inl TypeError"
| "extract_text (ContentObj other (Present parts)) = join_texts (part_texts parts)"

text \<open>Truth value of a content: a non-empty string, or a non-empty dict.\<close>

fun content_truthy :: "raw_content \<Rightarrow> bool" where
  "content_truthy (ContentStr s) = (s \<noteq> [])"
| "content_truthy (ContentObj other parts) = (other \<or> parts \<noteq> Absent)"

text \<open>
  \<open>msg.get("author", {}).get("role", "unknown")\<close>: an absent author is the empty dict, and
  an author that is \<open>null\<close> is \<open>None\<close>, on which \<open>get\<close> raises \<open>AttributeError\<close>.
\<close>

definition role_of_author :: "raw_author json_field \<Rightarrow> py_error + pystr" where
  "role_of_author a =
     (case a of
        Absent \<Rightarrow> Inr (ustr ''unknown'')
      | Null \<Rightarrow> Inl AttributeError
      | Present au \<Rightarrow>
          Inr (case author_role au of None \<Rightarrow> ustr ''unknown'' | Some r \<Rightarrow> r))"

definition known_roles :: "pystr list" where
  "known_roles = [ustr ''user'', ustr ''assistant'', ustr ''system'', ustr ''tool'']"

section \<open>Tree flattener\<close>

text \<open>
  The search for the root: the first node, in the order of the dict, whose parent is absent
  or is no key of the mapping.
\<close>

fun find_root :: "raw_mapping \<Rightarrow> raw_mapping \<Rightarrow> pystr option" where
  "find_root mapping [] = None"
| "find_root mapping ((node_id, node) # rest) =
     (case node_parent node of
        None \<Rightarrow> Some node_id
      | Some parent \<Rightarrow>
          if map_of mapping parent = None then Some node_id else find_root mapping rest)"

text \<open>
  The body of the \<open>while\<close> loop up to the append: the messages with the node's message
  added, when the node has one that passes the tests. The role is read before the text, so
  an author that is \<open>null\<close> raises before the parts are looked at.
\<close>

definition visit_node :: "raw_node \<Rightarrow> Message list \<Rightarrow> py_error + Message list" where
  "visit_node node msgs =
     (case node_message node of
        None \<Rightarrow> Inr msgs
      | Some msg_data \<Rightarrow>
          (case msg_content msg_data of
             None \<Rightarrow> Inr msgs
           | Some content \<Rightarrow>
               if content_truthy content then
                 (case role_of_author (msg_author msg_data) of
                    Inl e \<Rightarrow> Inl e
                  | Inr author \<Rightarrow>
                      (case extract_text content of
                         Inl e \<Rightarrow> Inl e
                       | Inr txt \<Rightarrow>
                           Inr (if py_strip txt \<noteq> [] \<and> author \<in> set known_roles
                                then msgs @ [\<lparr>role = author, text = txt,
                                               timestamp = msg_create_time msg_data\<rparr>]
                                else msgs)))
               else Inr msgs))"

text \<open>
  The loop \<open>while current_id:\<close>. It runs as long as the current id is neither \<open>None\<close>
  nor the empty string, and nothing bounds it: on a chain of first children that comes back
  to itself it never ends. The model counts the iterations down from \<open>fuel\<close>: the result is
  \<open>None\<close> when they are used up, \<open>Some (Inl e)\<close> when the code raises \<open>e\<close>, and
  \<open>Some (Inr msgs)\<close> when it returns \<open>msgs\<close>.
\<close>

definition empty_node :: raw_node where
  "empty_node = RawNode None [] None"

definition first_child :: "raw_node \<Rightarrow> pystr option" where
  "first_child node = (case node_children node of [] \<Rightarrow> None | child # _ \<Rightarrow> Some child)"

fun walk ::
  "nat \<Rightarrow> raw_mapping \<Rightarrow> pystr option \<Rightarrow> Message list \<Rightarrow> (py_error + Message list) option"
  where
  "walk fuel mapping None msgs = Some (Inr msgs)"
| "walk 0 mapping (Some current_id) msgs =
     (if current_id = [] then Some (Inr msgs) else None)"
| "walk (Suc fuel) mapping (Some current_id) msgs =
     (if current_id = [] then Some (Inr msgs)
      else (let node = dict_get mapping current_id empty_node
            in case visit_node node msgs of
                 Inl e \<Rightarrow> Some (Inl e)
               | Inr msgs' \<Rightarrow> walk fuel mapping (first_child node) msgs'))"

definition flatten_message_tree ::
  "nat \<Rightarrow> raw_mapping \<Rightarrow> (py_error + Message list) option" where
  "flatten_message_tree fuel mapping =
     (case find_root mapping mapping of
        None \<Rightarrow> Some (Inr [])
      | Some root_id \<Rightarrow> walk fuel mapping (Some root_id) [])"

text \<open>
  The words of the specification. \<open>first_child_path mapping c p\<close>: \<open>p\<close> is the path that
  starts at \<open>c\<close> and descends into the first listed child at each step, and stops at a node
  without children (a node id that is no key of the mapping stands for a node without
  message and children, as in the code). \<open>spec_emits\<close>: a node emits a Message only if its
  role is one of the four and its extracted text is not empty or whitespace-only.
\<close>

inductive first_child_path :: "raw_mapping \<Rightarrow> pystr \<Rightarrow> pystr list \<Rightarrow> bool"
  for mapping :: raw_mapping where
  path_end: "node_children (dict_get mapping c empty_node) = [] \<Longrightarrow>
     first_child_path mapping c [c]"
| path_step: "node_children (dict_get mapping c empty_node) = child # others \<Longrightarrow>
     first_child_path mapping child p \<Longrightarrow> first_child_path mapping c (c # p)"

definition spec_emits :: "raw_node \<Rightarrow> Message list" where
  "spec_emits node =
     (case node_message node of
        None \<Rightarrow> []
      | Some m \<Rightarrow>
          (case msg_content m of
             None \<Rightarrow> []
           | Some content \<Rightarrow>
               (case (role_of_author (msg_author m), extract_text content) of
                  (Inr r, Inr t) \<Rightarrow>
                    if r \<in> set known_roles \<and> \<not> list_all py_isspace t
                    then [\<lparr>role = r, text = t, timestamp = msg_create_time m\<rparr>]
                    else []
                | _ \<Rightarrow> [])))"

section \<open>Export parser\<close>

text \<open>
  The fallback for an entry without a mapping: the loop over the flat \<open>"messages"\<close> array.
  The default of \<open>msg.get("role", \<dots>)\<close> is computed whether or not the message has a role,
  so an author that is \<open>null\<close> raises here too.
\<close>

fun flat_messages :: "flat_message option list \<Rightarrow> Message list \<Rightarrow> py_error + Message list"
  where
  "flat_messages [] msgs = Inr msgs"
| "flat_messages (None # rest) msgs = flat_messages rest msgs"
| "flat_messages (Some msg # rest) msgs =
     (case flat_content msg of
        None \<Rightarrow> flat_messages rest msgs
      | Some content \<Rightarrow>
          if content_truthy content then
            (case extract_text content of
               Inl e \<Rightarrow> Inl e
             | Inr txt \<Rightarrow>
                 if py_strip txt \<noteq> [] then
                   (case role_of_author (flat_author msg) of
                      Inl e \<Rightarrow> Inl e
                    | Inr dflt \<Rightarrow>
                        flat_messages rest
                          (msgs @ [\<lparr>role = (case flat_role msg of None \<Rightarrow> dflt | Some r \<Rightarrow> r),
                                    text = txt, timestamp = flat_create_time msg\<rparr>]))
                 else flat_messages rest msgs)
          else flat_messages rest msgs)"

text \<open>
  The messages of one entry. \<open>entry.get("messages", [])\<close> is \<open>None\<close> for \<open>null\<close>, and the
  loop over \<open>None\<close> raises \<open>TypeError\<close>.
\<close>

definition entry_messages_of :: "nat \<Rightarrow> raw_entry \<Rightarrow> (py_error + Message list) option" where
  "entry_messages_of fuel entry =
     (if entry_mapping entry \<noteq> [] then flatten_message_tree fuel (entry_mapping entry)
      else (case entry_messages entry of
              Absent \<Rightarrow> Some (flat_messages [] [])
            | Null \<Rightarrow> Some (Inl TypeError)
            | Present ms \<Rightarrow> Some (flat_messages ms [])))"

definition conversation_of :: "raw_entry \<Rightarrow> Message list \<Rightarrow> Conversation" where
  "conversation_of entry msgs =
     \<lparr>conv_id = (case entry_id entry of
                   Some i \<Rightarrow> i
                 | None \<Rightarrow> (case entry_conversation_id entry of Some i \<Rightarrow> i | None \<Rightarrow> [])),
      title = (case entry_title entry of Some t \<Rightarrow> t | None \<Rightarrow> ustr ''Untitled''),
      create_time = entry_create_time entry,
      update_time = entry_update_time entry,
      messages = msgs,
      model_slug = (case entry_default_model_slug entry of Some s \<Rightarrow> s | None \<Rightarrow> [])\<rparr>"

fun parse_loop ::
  "nat \<Rightarrow> raw_entry list \<Rightarrow> Conversation list \<Rightarrow> (py_error + Conversation list) option"
  where
  "parse_loop fuel [] conversations = Some (Inr conversations)"
| "parse_loop fuel (entry # rest) conversations =
     (case entry_messages_of fuel entry of
        None \<Rightarrow> None
      | Some (Inl e) \<Rightarrow> Some (Inl e)
      | Some (Inr msgs) \<Rightarrow>
          parse_loop fuel rest
            (if msgs \<noteq> [] then conversations @ [conversation_of entry msgs]
             else conversations))"

text \<open>
  \<open>sorted(xs, key=f, reverse=True)\<close> and \<open>xs.sort(key=f, reverse=True)\<close>: CPython reverses
  the list, sorts it stably in ascending order of the key and reverses the result.
\<close>

definition py_sort_reverse :: "('a \<Rightarrow> real) \<Rightarrow> 'a list \<Rightarrow> 'a list" where
  "py_sort_reverse f xs = rev (sort_key f (rev xs))"

text \<open>
  \<open>parse_chatgpt_export\<close> from the loaded JSON on; reading the file or the archive is not
  modelled.
\<close>

definition parse_chatgpt_export ::
  "nat \<Rightarrow> raw_entry list \<Rightarrow> (py_error + Conversation list) option" where
  "parse_chatgpt_export fuel raw_json =
     (case parse_loop fuel raw_json [] of
        None \<Rightarrow> None
      | Some (Inl e) \<Rightarrow> Some (Inl e)
      | Some (Inr conversations) \<Rightarrow>
          Some (Inr (py_sort_reverse (\<lambda>c. time_or_0 (create_time c)) conversations)))"

section \<open>Search engine\<close>

text \<open>
  The engine's three attributes. Both dicts are lists of pairs in insertion order;
  \<open>AList.update\<close> is the assignment \<open>d[k] = v\<close>: it replaces the value of a key that is
  there, in place, and appends a new key at the end.
\<close>

record SearchEngine =
  conversations :: "Conversation list"
  index :: "(pystr \<times> (nat \<times> real) list) list"
  idf :: "(pystr \<times> real) list"

text \<open>\<open>Counter(tokens)\<close>: the count of each token, keyed in the order of first occurrence.\<close>

definition Counter :: "pystr list \<Rightarrow> (pystr \<times> nat) list" where
  "Counter tokens = fold (\<lambda>t c. AList.update t (dict_get c t 0 + 1) c) tokens []"

text \<open>
  The first loop of \<open>_build_index\<close>: the counters of the documents and the document
  frequencies. The order in which Python walks \<open>set(tokens)\<close> is not fixed; the model walks
  the distinct tokens in the order of their last occurrence. That order only decides the
  order of the keys of \<open>doc_freq\<close> and of \<open>_idf\<close>, which are read by key only.
\<close>

definition doc_freq_step :: "pystr list \<Rightarrow> (pystr \<times> nat) list \<Rightarrow> (pystr \<times> nat) list" where
  "doc_freq_step tokens doc_freq =
     fold (\<lambda>term df. AList.update term (dict_get df term 0 + 1) df) (remdups tokens) doc_freq"

definition tf_per_doc_of :: "(nat \<Rightarrow> pystr) \<Rightarrow> Conversation list \<Rightarrow> (pystr \<times> nat) list list" where
  "tf_per_doc_of tbl convs = map (\<lambda>conv. Counter (tokenize tbl (full_text conv))) convs"

definition doc_freq_of :: "(nat \<Rightarrow> pystr) \<Rightarrow> Conversation list \<Rightarrow> (pystr \<times> nat) list" where
  "doc_freq_of tbl convs =
     fold (\<lambda>conv df. doc_freq_step (tokenize tbl (full_text conv)) df) convs []"

text \<open>The second loop: \<open>math.log((n_docs + 1) / (df + 1)) + 1\<close> for every term.\<close>

definition idf_value :: "nat \<Rightarrow> nat \<Rightarrow> real" where
  "idf_value n_docs df = ln ((real n_docs + 1) / (real df + 1)) + 1"

definition idf_of :: "nat \<Rightarrow> (pystr \<times> nat) list \<Rightarrow> (pystr \<times> real) list" where
  "idf_of n_docs doc_freq =
     fold (\<lambda>(term, df) tab. AList.update term (idf_value n_docs df) tab) doc_freq []"

text \<open>The third loop: the posting lists, with the normalised term frequencies.\<close>

definition total_tokens_of :: "(pystr \<times> nat) list \<Rightarrow> nat" where
  "total_tokens_of tf = (let s = sum_list (map snd tf) in if s = 0 then 1 else s)"

definition index_step ::
  "nat \<times> (pystr \<times> nat) list \<Rightarrow> (pystr \<times> (nat \<times> real) list) list \<Rightarrow>
   (pystr \<times> (nat \<times> real) list) list" where
  "index_step = (\<lambda>(idx, tf) ind.
     fold (\<lambda>(term, count) ind.
             AList.update term
               (dict_get ind term [] @ [(idx, real count / real (total_tokens_of tf))]) ind)
          tf ind)"

definition index_of :: "(pystr \<times> nat) list list \<Rightarrow> (pystr \<times> (nat \<times> real) list) list" where
  "index_of tf_per_doc = fold index_step (enumerate 0 tf_per_doc) []"

definition build_index :: "(nat \<Rightarrow> pystr) \<Rightarrow> Conversation list \<Rightarrow> SearchEngine" where
  "build_index tbl convs =
     \<lparr>conversations = convs,
      index = index_of (tf_per_doc_of tbl convs),
      idf = idf_of (length convs) (doc_freq_of tbl convs)\<rparr>"

text \<open>
  The words of the specification: the document frequency of a term is the number of
  conversations whose tokens contain it.
\<close>

definition doc_count :: "(nat \<Rightarrow> pystr) \<Rightarrow> Conversation list \<Rightarrow> pystr \<Rightarrow> nat" where
  "doc_count tbl convs t =
     length (filter (\<lambda>conv. t \<in> set (tokenize tbl (full_text conv))) convs)"

section \<open>Dates\<close>

text \<open>
  \<open>datetime.strptime(s, "%Y-%m-%d")\<close>, as CPython's \<open>_strptime\<close> does it: the string must
  start with four digits, a dash, a month (\<open>1[0-2]|0[1-9]|[1-9]\<close>), a dash and a day
  (\<open>3[01]|[12]\d|0[1-9]|[1-9]| [1-9]\<close>), the first alternative that matches being taken,
  and nothing may remain; then the date must exist (year at least 1, day within the month).
  A failure is Python's \<open>ValueError\<close>, here \<open>None\<close>. Only the ASCII digits are modelled.
\<close>

definition is_digit :: "nat \<Rightarrow> bool" where
  "is_digit c = (48 \<le> c \<and> c \<le> 57)"

definition digit_val :: "nat \<Rightarrow> nat" where
  "digit_val c = c - 48"

fun match_year :: "pystr \<Rightarrow> (nat \<times> pystr) option" where
  "match_year (a # b # c # d # rest) =
     (if is_digit a \<and> is_digit b \<and> is_digit c \<and> is_digit d
      then Some (1000 * digit_val a + 100 * digit_val b + 10 * digit_val c + digit_val d, rest)
      else None)"
| "match_year _ = None"

fun match_dash :: "pystr \<Rightarrow> pystr option" where
  "match_dash (c # rest) = (if c = 45 then Some rest else None)"
| "match_dash [] = None"

definition two_chars :: "pystr \<Rightarrow> (nat \<times> nat \<times> pystr) option" where
  "two_chars s = (case s of a # b # rest \<Rightarrow> Some (a, b, rest) | _ \<Rightarrow> None)"

definition match_month :: "pystr \<Rightarrow> (nat \<times> pystr) option" where
  "match_month s =
     (case two_chars s of
        Some (a, b, rest) \<Rightarrow>
          if a = 49 \<and> 48 \<le> b \<and> b \<le> 50 then Some (10 + digit_val b, rest)
          else if a = 48 \<and> 49 \<le> b \<and> b \<le> 57 then Some (digit_val b, rest)
          else if 49 \<le> a \<and> a \<le> 57 then Some (digit_val a, b # rest)
          else None
      | None \<Rightarrow>
          (case s of [a] \<Rightarrow> if 49 \<le> a \<and> a \<le> 57 then Some (digit_val a, []) else None
           | _ \<Rightarrow> None))"

definition match_day :: "pystr \<Rightarrow> (nat \<times> pystr) option" where
  "match_day s =
     (case two_chars s of
        Some (a, b, rest) \<Rightarrow>
          if a = 51 \<and> 48 \<le> b \<and> b \<le> 49 then Some (30 + digit_val b, rest)
          else if 49 \<le> a \<and> a \<le> 50 \<and> is_digit b then Some (10 * digit_val a + digit_val b, rest)
          else if a = 48 \<and> 49 \<le> b \<and> b \<le> 57 then Some (digit_val b, rest)
          else if 49 \<le> a \<and> a \<le> 57 then Some (digit_val a, b # rest)
          else if a = 32 \<and> 49 \<le> b \<and> b \<le> 57 then Some (digit_val b, rest)
          else None
      | None \<Rightarrow>
          (case s of [a] \<Rightarrow> if 49 \<le> a \<and> a \<le> 57 then Some (digit_val a, []) else None
           | _ \<Rightarrow> None))"

definition is_leap :: "nat \<Rightarrow> bool" where
  "is_leap y = (y mod 4 = 0 \<and> (y mod 100 \<noteq> 0 \<or> y mod 400 = 0))"

definition days_in_month :: "nat \<Rightarrow> nat \<Rightarrow> nat" where
  "days_in_month y m =
     (if m = 2 then (if is_leap y then 29 else 28)
      else if m = 4 \<or> m = 6 \<or> m = 9 \<or> m = 11 then 30 else 31)"

definition days_before_month :: "nat \<Rightarrow> nat \<Rightarrow> nat" where
  "days_before_month y m =
     [0, 31, 59, 90, 120, 151, 181, 212, 243, 273, 304, 334] ! (m - 1)
     + (if m > 2 \<and> is_leap y then 1 else 0)"

definition days_before_year :: "nat \<Rightarrow> nat" where
  "days_before_year y = (y - 1) * 365 + (y - 1) div 4 - (y - 1) div 100 + (y - 1) div 400"

definition ymd2ord :: "nat \<Rightarrow> nat \<Rightarrow> nat \<Rightarrow> nat" where
  "ymd2ord y m d = days_before_year y + days_before_month y m + d"

definition strptime_ymd :: "pystr \<Rightarrow> (nat \<times> nat \<times> nat) option" where
  "strptime_ymd s =
     (case match_year s of
        None \<Rightarrow> None
      | Some (y, s1) \<Rightarrow>
          (case match_dash s1 of
             None \<Rightarrow> None
           | Some s2 \<Rightarrow>
               (case match_month s2 of
                  None \<Rightarrow> None
                | Some (m, s3) \<Rightarrow>
                    (case match_dash s3 of
                       None \<Rightarrow> None
                     | Some s4 \<Rightarrow>
                         (case match_day s4 of
                            None \<Rightarrow> None
                          | Some (d, s5) \<Rightarrow>
                              if s5 \<noteq> [] then None
                              else if y < 1 then None
                              else if d > days_in_month y m then None
                              else Some (y, m, d))))))"

text \<open>
  \<open>_parse_date\<close>: the parsed date at midnight UTC, in seconds since 1970-01-01 (whose
  ordinal is 719163), or \<open>None\<close> where \<open>strptime\<close> raises \<open>ValueError\<close>.
\<close>

definition parse_date :: "pystr \<Rightarrow> real option" where
  "parse_date date_str =
     (case strptime_ymd (py_strip date_str) of
        None \<Rightarrow> None
      | Some (y, m, d) \<Rightarrow> Some (real_of_int ((int (ymd2ord y m d) - 719163) * 86400)))"

section \<open>Search\<close>

text \<open>The scoring loop: \<open>scores[idx] = scores.get(idx, 0) + tf * idf\<close>.\<close>

definition score_token :: "SearchEngine \<Rightarrow> pystr \<Rightarrow> (nat \<times> real) list \<Rightarrow> (nat \<times> real) list" where
  "score_token eng token scores =
     (let idf_t = dict_get (idf eng) token 0
      in fold (\<lambda>(idx, tf) sc. AList.update idx (dict_get sc idx 0 + tf * idf_t) sc)
           (dict_get (index eng) token []) scores)"

definition accumulate :: "SearchEngine \<Rightarrow> pystr list \<Rightarrow> (nat \<times> real) list" where
  "accumulate eng query_tokens = fold (score_token eng) query_tokens []"

text \<open>The title boost: \<open>scores[idx] = scores.get(idx, 0) * 2.0\<close> where the title matches.\<close>

definition title_matches :: "(nat \<Rightarrow> pystr) \<Rightarrow> pystr \<Rightarrow> Conversation \<Rightarrow> bool" where
  "title_matches tbl query conv = py_in (py_lower tbl query) (py_lower tbl (title conv))"

definition boost_step ::
  "(nat \<Rightarrow> pystr) \<Rightarrow> pystr \<Rightarrow> nat \<times> Conversation \<Rightarrow> (nat \<times> real) list \<Rightarrow> (nat \<times> real) list" where
  "boost_step tbl query = (\<lambda>(idx, conv) scores.
     if title_matches tbl query conv then AList.update idx (dict_get scores idx 0 * 2) scores
     else scores)"

definition title_boost ::
  "(nat \<Rightarrow> pystr) \<Rightarrow> pystr \<Rightarrow> Conversation list \<Rightarrow> (nat \<times> real) list \<Rightarrow> (nat \<times> real) list" where
  "title_boost tbl query convs scores = fold (boost_step tbl query) (enumerate 0 convs) scores"

text \<open>
  The date tests of the result loop. A bound is applied when it is truthy: \<open>None\<close> and
  \<open>0.0\<close> are not.
\<close>

definition date_bound :: "pystr option \<Rightarrow> real option" where
  "date_bound d = (case d of None \<Rightarrow> None | Some s \<Rightarrow> if s = [] then None else parse_date s)"

definition skipped :: "real option \<Rightarrow> real option \<Rightarrow> real \<Rightarrow> bool" where
  "skipped ts_from ts_to ts =
     ((case ts_from of None \<Rightarrow> False | Some f \<Rightarrow> f \<noteq> 0 \<and> ts < f)
      \<or> (case ts_to of None \<Rightarrow> False | Some t \<Rightarrow> t \<noteq> 0 \<and> ts > t))"

text \<open>
  The result loop over the sorted scores. A hit keeps the index of its conversation beside
  the score; \<open>search\<close> puts the conversation in its place, as the loop does.
\<close>

fun collect ::
  "Conversation list \<Rightarrow> real option \<Rightarrow> real option \<Rightarrow> int \<Rightarrow> (nat \<times> real) list \<Rightarrow>
   (nat \<times> real) list \<Rightarrow> (nat \<times> real) list" where
  "collect convs ts_from ts_to limit [] results = results"
| "collect convs ts_from ts_to limit ((idx, score) # rest) results =
     (if skipped ts_from ts_to (time_or_0 (create_time (convs ! idx)))
      then collect convs ts_from ts_to limit rest results
      else (let results' = results @ [(idx, score)]
            in if int (length results') \<ge> limit then results'
               else collect convs ts_from ts_to limit rest results'))"

text \<open>The hits the date tests let through.\<close>

definition passes :: "Conversation list \<Rightarrow> real option \<Rightarrow> real option \<Rightarrow> nat \<times> real \<Rightarrow> bool" where
  "passes convs ts_from ts_to = (\<lambda>(idx, score). \<not> skipped ts_from ts_to (time_or_0 (create_time (convs ! idx))))"

definition final_scores :: "(nat \<Rightarrow> pystr) \<Rightarrow> SearchEngine \<Rightarrow> pystr \<Rightarrow> (nat \<times> real) list" where
  "final_scores tbl eng query =
     title_boost tbl query (conversations eng) (accumulate eng (tokenize tbl query))"

definition search_hits ::
  "(nat \<Rightarrow> pystr) \<Rightarrow> SearchEngine \<Rightarrow> pystr \<Rightarrow> int \<Rightarrow> pystr option \<Rightarrow> pystr option \<Rightarrow>
   (nat \<times> real) list" where
  "search_hits tbl eng query limit date_from date_to =
     (if tokenize tbl query = [] then []
      else collect (conversations eng) (date_bound date_from) (date_bound date_to) limit
             (py_sort_reverse snd (final_scores tbl eng query)) [])"

definition search ::
  "(nat \<Rightarrow> pystr) \<Rightarrow> SearchEngine \<Rightarrow> pystr \<Rightarrow> int \<Rightarrow> pystr option \<Rightarrow> pystr option \<Rightarrow>
   (Conversation \<times> real) list" where
  "search tbl eng query limit date_from date_to =
     map (\<lambda>(idx, score). (conversations eng ! idx, score))
       (search_hits tbl eng query limit date_from date_to)"

section \<open>Listing\<close>

text \<open>\<open>xs[start:end]\<close>, with Python's reading of negative and too large bounds.\<close>

definition slice_bound :: "int \<Rightarrow> int \<Rightarrow> nat" where
  "slice_bound n i = nat (if i < 0 then max 0 (i + n) else min i n)"

definition py_slice :: "'a list \<Rightarrow> int \<Rightarrow> int \<Rightarrow> 'a list" where
  "py_slice xs start stop =
     (let n = int (length xs); a = slice_bound n start; b = slice_bound n stop
      in take (b - a) (drop a xs))"

text \<open>
  \<open>chatgpt_list_conversations\<close> returns a text; the model returns what the text is written
  from: the message for an empty collection, or the page with its bounds and the total.
\<close>

datatype listing =
  NoConversationsLoaded
| Listing (page: "Conversation list") (page_start: int) (page_end: int) (total: int)
    (has_more: bool)

definition chatgpt_list_conversations :: "Conversation list \<Rightarrow> int \<Rightarrow> int \<Rightarrow> listing" where
  "chatgpt_list_conversations convs offset limit =
     (if convs = [] then NoConversationsLoaded
      else (let total = int (length convs);
                start = min offset total;
                stop = min (start + limit) total
            in Listing (py_slice convs start stop) start stop total (stop < total)))"

section \<open>Sample data\<close>

text \<open>A conversation with one user message, for the concrete instances below.\<close>

definition simple_conv :: "string \<Rightarrow> real option \<Rightarrow> string \<Rightarrow> Conversation" where
  "simple_conv t ct m =
     \<lparr>conv_id = ustr t, title = ustr t, create_time = ct, update_time = None,
      messages = [\<lparr>role = ustr ''user'', text = ustr m, timestamp = None\<rparr>],
      model_slug = []\<rparr>"

text \<open>A node that carries a user message with the given text.\<close>

definition user_node :: "string \<Rightarrow> pystr option \<Rightarrow> pystr list \<Rightarrow> raw_node" where
  "user_node t parent children =
     RawNode parent children
       (Some (RawMessage (Present (RawAuthor (Some (ustr ''user''))))
          (Some (ContentStr (ustr t))) None))"

text \<open>An entry without mapping, with one user message in its flat array.\<close>

definition flat_entry :: "string \<Rightarrow> real option \<Rightarrow> string \<Rightarrow> raw_entry" where
  "flat_entry t ct m =
     RawEntry (Some (ustr t)) None (Some (ustr t)) ct None None []
       (Present
          [Some (FlatMessage (Some (ustr ''user'')) Absent (Some (ContentStr (ustr m))) None)])"

section \<open>Properties of the tokenizer\<close>

lemma findall_alnum_seps:
  "list_all (\<lambda>c. \<not> is_alnum c) pre \<Longrightarrow> findall_alnum (pre @ s) = findall_alnum s"
  by (induction pre) auto

lemma findall_alnum_run:
  assumes "t \<noteq> []" "list_all is_alnum t" "case rest of [] \<Rightarrow> True | r # _ \<Rightarrow> \<not> is_alnum r"
  shows "findall_alnum (t @ rest) = t # findall_alnum rest"
proof -
  from assms(1) obtain c cs where t: "t = c # cs" by (cases t) auto
  with assms(2) have c: "is_alnum c" and cs: "\<forall>x\<in>set cs. is_alnum x"
    by (auto simp: list_all_iff)
  from assms(3) have tw: "takeWhile is_alnum rest = []" and dw: "dropWhile is_alnum rest = rest"
    by (cases rest; simp)+
  from cs have "takeWhile is_alnum (cs @ rest) = cs @ takeWhile is_alnum rest"
    by (simp add: takeWhile_append2)
  moreover from cs have "dropWhile is_alnum (cs @ rest) = dropWhile is_alnum rest"
    by (simp add: dropWhile_append2)
  ultimately show ?thesis using t c tw dw by simp
qed

lemma maximal_runs_findall:
  "maximal_runs is_alnum s ts \<Longrightarrow> findall_alnum s = ts"
proof (induction rule: maximal_runs.induct)
  case (no_run s)
  then show ?case using findall_alnum_seps [of s "[]"] by simp
next
  case (one_run pre t rest ts)
  then show ?case by (simp add: findall_alnum_seps findall_alnum_run)
qed

lemma findall_maximal_runs: "maximal_runs is_alnum s (findall_alnum s)"
proof (induction s rule: findall_alnum.induct)
  case 1
  show ?case using no_run [of is_alnum "[]"] by simp
next
  case (2 c cs)
  show ?case
  proof (cases "is_alnum c")
    case True
    let ?t = "c # takeWhile is_alnum cs" and ?rest = "dropWhile is_alnum cs"
    have rest: "case ?rest of [] \<Rightarrow> True | r # _ \<Rightarrow> \<not> is_alnum r"
      by (auto split: list.splits simp: dropWhile_eq_Cons_conv)
    have t: "list_all is_alnum ?t"
      using True by (auto simp: list_all_iff dest: set_takeWhileD)
    have "maximal_runs is_alnum ([] @ ?t @ ?rest) (?t # findall_alnum ?rest)"
      by (rule one_run) (use t rest 2(1) [OF True] in simp_all)
    then show ?thesis using True by simp
  next
    case False
    from 2(2) [OF False] show ?thesis
    proof (cases rule: maximal_runs.cases)
      case no_run
      then have "list_all (\<lambda>c. \<not> is_alnum c) (c # cs)" using False by simp
      then have "maximal_runs is_alnum (c # cs) []" by (rule maximal_runs.no_run)
      then show ?thesis using False no_run by simp
    next
      case (one_run pre t rest ts)
      have "maximal_runs is_alnum ((c # pre) @ t @ rest) (t # ts)"
        by (rule maximal_runs.one_run) (use one_run False in simp_all)
      then show ?thesis using False one_run by simp
    qed
  qed
qed

text \<open>
  C4 (amended). For every input string, \<open>tokenize\<close> lowercases the string and returns
  exactly the maximal runs of the ASCII letters and digits of the lowercased string, in order;
  every other code point of the lowercased string is a separator only. In particular
  \<open>tokenize("Hello, World! 42") = ["hello", "world", "42"]\<close> and \<open>tokenize("") = []\<close>.
  (A code point beyond ASCII is a separator unless its lowercase form holds an ASCII letter.)
\<close>

theorem tokenize_maximal_runs:
  "(maximal_runs is_alnum (py_lower tbl s) ts \<longleftrightarrow> ts = tokenize tbl s)
   \<and> tokenize tbl (ustr ''Hello, World! 42'') = [ustr ''hello'', ustr ''world'', ustr ''42'']
   \<and> tokenize tbl [] = []"
proof -
  have "maximal_runs is_alnum (py_lower tbl s) ts \<longleftrightarrow> ts = tokenize tbl s"
    unfolding tokenize_def
    using maximal_runs_findall [of "py_lower tbl s" ts] findall_maximal_runs [of "py_lower tbl s"]
    by auto
  moreover have "tokenize tbl (ustr ''Hello, World! 42'')
      = [ustr ''hello'', ustr ''world'', ustr ''42'']"
    by (simp add: tokenize_def py_lower_def lower_cp_def ustr_def is_alnum_def)
  moreover have "tokenize tbl [] = []"
    by (simp add: tokenize_def py_lower_def)
  ultimately show ?thesis by blast
qed

theorem tokenize_maximal_runs_witness:
  "maximal_runs is_alnum (py_lower (\<lambda>c. [c]) (ustr ''Ab, c'')) [ustr ''ab'', ustr ''c'']"
  using tokenize_maximal_runs [of "\<lambda>c. [c]" "ustr ''Ab, c''" "[ustr ''ab'', ustr ''c'']"]
  by (simp add: tokenize_def py_lower_def lower_cp_def ustr_def is_alnum_def)

text \<open>
  C4 as stated fails: the Kelvin sign U+212A is not ASCII, and it contributes the token
  \<open>k\<close>, because \<open>lower()\<close> turns it into the ASCII letter before the runs are taken.
\<close>

theorem tokenize_kelvin_counterexample:
  "\<not> (8490::nat) < 128 \<and> tokenize (\<lambda>c. [c]) [8490] = [ustr ''k'']"
  by (simp add: tokenize_def py_lower_def lower_cp_def ustr_def is_alnum_def)

section \<open>Properties of the listing\<close>

lemma py_slice_page:
  assumes "0 \<le> offset" "1 \<le> limit"
  shows "py_slice xs (min offset (int (length xs)))
           (min (min offset (int (length xs)) + limit) (int (length xs)))
         = take (nat limit) (drop (nat offset) xs)"
proof (cases "offset < int (length xs)")
  case True
  show ?thesis
  proof (cases "offset + limit \<le> int (length xs)")
    case True
    with assms \<open>offset < int (length xs)\<close> show ?thesis
      by (simp add: py_slice_def slice_bound_def Let_def min_def nat_diff_distrib nat_add_distrib)
  next
    case False
    with assms \<open>offset < int (length xs)\<close>
    have "length (drop (nat offset) xs) \<le> nat limit" by simp
    with False assms \<open>offset < int (length xs)\<close> show ?thesis
      by (simp add: py_slice_def slice_bound_def Let_def min_def nat_diff_distrib)
  qed
next
  case False
  with assms show ?thesis
    by (simp add: py_slice_def slice_bound_def Let_def min_def)
qed

text \<open>
  C9 (amended). For every non-empty Collection of total size T, every offset \<open>\<ge> 0\<close> and every
  limit \<open>\<ge> 1\<close>, the listing page is the contiguous slice of the Collection in its order that
  starts at position offset and has at most limit elements, the reported total equals T, and
  an offset beyond T yields an empty page rather than an error; over a 5-item Collection,
  offset 2 and limit 2 give the items at positions 2 and 3 with total 5, and offset 10 and
  limit 2 give an empty page with total 5. For the empty Collection the listing is the
  message that no conversations are loaded, without a page or a total.
\<close>

theorem list_page_slice:
  assumes "convs \<noteq> []" "0 \<le> offset" "1 \<le> limit"
  shows "(\<exists>a b m. chatgpt_list_conversations convs offset limit
            = Listing (take (nat limit) (drop (nat offset) convs)) a b (int (length convs)) m)
         \<and> (int (length convs) \<le> offset \<longrightarrow>
              page (chatgpt_list_conversations convs offset limit) = [])
         \<and> (length convs = 5 \<longrightarrow>
              page (chatgpt_list_conversations convs 2 2) = [convs ! 2, convs ! 3]
              \<and> total (chatgpt_list_conversations convs 2 2) = 5
              \<and> page (chatgpt_list_conversations convs 10 2) = []
              \<and> total (chatgpt_list_conversations convs 10 2) = 5)
         \<and> chatgpt_list_conversations [] offset limit = NoConversationsLoaded"
proof -
  have eq: "chatgpt_list_conversations convs o' l'
      = Listing (take (nat l') (drop (nat o') convs)) (min o' (int (length convs)))
          (min (min o' (int (length convs)) + l') (int (length convs))) (int (length convs))
          (min (min o' (int (length convs)) + l') (int (length convs)) < int (length convs))"
    if "0 \<le> o'" "1 \<le> l'" for o' l'
    using assms(1) py_slice_page [OF that, of convs]
    by (simp add: chatgpt_list_conversations_def Let_def)
  have five: "take 2 (drop 2 convs) = [convs ! 2, convs ! 3]" if "length convs = 5"
  proof -
    from that obtain a b c d e where "convs = [a, b, c, d, e]"
      by (auto simp: length_Suc_conv eval_nat_numeral)
    then show ?thesis by (simp add: eval_nat_numeral)
  qed
  have "\<exists>a b m. chatgpt_list_conversations convs offset limit
      = Listing (take (nat limit) (drop (nat offset) convs)) a b (int (length convs)) m"
    using eq [OF assms(2,3)] by blast
  moreover have "int (length convs) \<le> offset \<longrightarrow>
      page (chatgpt_list_conversations convs offset limit) = []"
    using eq [OF assms(2,3)] by simp
  moreover have "length convs = 5 \<longrightarrow>
      page (chatgpt_list_conversations convs 2 2) = [convs ! 2, convs ! 3]
      \<and> total (chatgpt_list_conversations convs 2 2) = 5
      \<and> page (chatgpt_list_conversations convs 10 2) = []
      \<and> total (chatgpt_list_conversations convs 10 2) = 5"
    using eq [of 2 2] eq [of 10 2] five by simp
  moreover have "chatgpt_list_conversations [] offset limit = NoConversationsLoaded"
    by (simp add: chatgpt_list_conversations_def)
  ultimately show ?thesis by blast
qed

theorem list_page_slice_witness:
  "page (chatgpt_list_conversations
      [simple_conv ''a'' None ''x'', simple_conv ''b'' None ''x'', simple_conv ''c'' None ''x'',
       simple_conv ''d'' None ''x'', simple_conv ''e'' None ''x''] 2 2)
   = [simple_conv ''c'' None ''x'', simple_conv ''d'' None ''x'']
   \<and> total (chatgpt_list_conversations
      [simple_conv ''a'' None ''x'', simple_conv ''b'' None ''x'', simple_conv ''c'' None ''x'',
       simple_conv ''d'' None ''x'', simple_conv ''e'' None ''x''] 2 2) = 5"
  using list_page_slice [of "[simple_conv ''a'' None ''x'', simple_conv ''b'' None ''x'',
       simple_conv ''c'' None ''x'', simple_conv ''d'' None ''x'', simple_conv ''e'' None ''x'']" 2 2]
  by simp

text \<open>
  C9 as stated fails for the empty Collection (T = 0): the guard at the head of the function
  answers with the message, and neither an empty page nor the total 0 is reported.
\<close>

theorem list_page_empty_counterexample:
  "chatgpt_list_conversations [] 0 1 = NoConversationsLoaded
   \<and> chatgpt_list_conversations [] 0 1 \<noteq> Listing [] 0 0 0 False"
  by (simp add: chatgpt_list_conversations_def)

section \<open>Evaluation of concrete instances\<close>

lemmas text_eval = tokenize_def py_lower_def lower_cp_def full_text_def ustr_def is_alnum_def
  simple_conv_def
lemmas index_eval = build_index_def tf_per_doc_of_def doc_freq_of_def idf_of_def index_of_def
  index_step_def doc_freq_step_def Counter_def dict_get_def total_tokens_of_def enumerate_eq_zip
  idf_value_def
lemmas search_eval = search_def search_hits_def final_scores_def accumulate_def score_token_def
  title_boost_def boost_step_def title_matches_def py_sort_reverse_def date_bound_def
  skipped_def time_or_0_def

section \<open>Properties of the search\<close>

lemma py_sort_reverse_descending: "sorted_wrt (\<lambda>a b. f a \<ge> f b) (py_sort_reverse f xs)"
proof -
  have "sorted (map f (sort_key f (rev xs)))" by (rule sorted_sort_key)
  then have "sorted_wrt (\<lambda>a b. f a \<le> f b) (sort_key f (rev xs))"
    by (simp add: sorted_wrt_map)
  then show ?thesis
    by (simp add: py_sort_reverse_def sorted_wrt_rev)
qed

lemma py_sort_reverse_stable:
  "filter (\<lambda>y. f y = k) (py_sort_reverse f xs) = filter (\<lambda>y. f y = k) xs"
  by (simp add: py_sort_reverse_def rev_filter [symmetric] sort_key_stable)

lemma set_py_sort_reverse: "set (py_sort_reverse f xs) = set xs"
  by (simp add: py_sort_reverse_def)

lemma collect_take_filter:
  "collect convs f t limit xs res
   = res @ take (nat (max 1 (limit - int (length res)))) (filter (passes convs f t) xs)"
proof (induction xs arbitrary: res)
  case Nil
  show ?case by simp
next
  case (Cons p xs)
  obtain idx score where p: "p = (idx, score)" by (cases p)
  show ?case
  proof (cases "passes convs f t p")
    case False
    then show ?thesis using Cons p by (simp add: passes_def)
  next
    case True
    show ?thesis
    proof (cases "limit \<le> int (length res) + 1")
      case True
      then have "nat (max 1 (limit - int (length res))) = Suc 0" by (auto simp: max_def)
      with True \<open>passes convs f t p\<close> p show ?thesis by (simp add: passes_def Let_def)
    next
      case False
      then have k: "nat (max 1 (limit - int (length res)))
          = Suc (nat (max 1 (limit - int (length (res @ [p])))))"
        by (simp add: max_def)
      from False \<open>passes convs f t p\<close> p show ?thesis
        unfolding k by (simp add: passes_def Let_def Cons)
    qed
  qed
qed

lemma map_of_boost_fold:
  "map_of (fold (boost_step tbl q) (enumerate n cs) scores) i =
     (if n \<le> i \<and> i < n + length cs \<and> title_matches tbl q (cs ! (i - n))
      then Some (dict_get scores i 0 * 2) else map_of scores i)"
proof (induction cs arbitrary: n scores)
  case Nil
  show ?case by auto
next
  case (Cons c cs)
  have step: "fold (boost_step tbl q) (enumerate n (c # cs)) scores
      = fold (boost_step tbl q) (enumerate (Suc n) cs) (boost_step tbl q (n, c) scores)"
    by simp
  have upd: "map_of (boost_step tbl q (n, c) scores) j
      = (if j = n \<and> title_matches tbl q c then Some (dict_get scores n 0 * 2)
         else map_of scores j)" for j
    by (simp add: boost_step_def AList.update_conv')
  show ?case
    unfolding step Cons.IH
    by (auto simp: upd dict_get_def nth_Cons' Suc_le_eq)
qed


lemma search_hits_take_filter:
  "search_hits tbl eng query limit date_from date_to =
     (if tokenize tbl query = [] then []
      else take (nat (max 1 limit))
             (filter (passes (conversations eng) (date_bound date_from) (date_bound date_to))
                (py_sort_reverse snd (final_scores tbl eng query))))"
  by (simp add: search_hits_def collect_take_filter)

lemma subseq_take_left: "subseq (take n xs) xs"
  using subseq_rev_drop_many [of "take n xs" "take n xs" "drop n xs"] by simp

lemma distinct_keys_update_fold:
  "distinct (map fst sc) \<Longrightarrow>
   distinct (map fst (fold (\<lambda>p sc. AList.update (fst p) (g p sc) sc) ps sc))"
  by (induction ps arbitrary: sc) (simp_all add: distinct_update)

lemma distinct_keys_score_token:
  "distinct (map fst sc) \<Longrightarrow> distinct (map fst (score_token eng token sc))"
  using distinct_keys_update_fold
    [of sc "\<lambda>p sc. dict_get sc (fst p) 0 + snd p * dict_get (idf eng) token 0"
       "dict_get (index eng) token []"]
  by (simp add: score_token_def case_prod_unfold)

lemma distinct_keys_accumulate_from:
  "distinct (map fst sc) \<Longrightarrow> distinct (map fst (fold (score_token eng) toks sc))"
  by (induction toks arbitrary: sc) (simp_all add: distinct_keys_score_token)

lemma distinct_keys_boost:
  "distinct (map fst sc) \<Longrightarrow> distinct (map fst (fold (boost_step tbl q) cs sc))"
  by (induction cs arbitrary: sc) (auto simp: boost_step_def distinct_update)

lemma distinct_keys_final_scores: "distinct (map fst (final_scores tbl eng query))"
  by (simp add: final_scores_def title_boost_def accumulate_def distinct_keys_boost
      distinct_keys_accumulate_from)

lemma search_hits_subset: "set (search_hits tbl eng query limit date_from date_to)
    \<subseteq> set (final_scores tbl eng query)"
  by (auto simp: search_hits_take_filter set_py_sort_reverse dest: in_set_takeD)

text \<open>
  C2. A conversation whose lowercased title contains the lowercased raw query string as a
  literal substring has its accumulated TF-IDF score multiplied by exactly 2: that is its
  entry in the score table after the boost, and the score \<open>search\<close> returns for it. With
  an accumulated score of zero (no entry counts as zero) the score after the boost is zero.
\<close>

theorem title_boost_doubles:
  assumes "idx < length (conversations eng)"
    and "title_matches tbl query (conversations eng ! idx)"
  shows "map_of (final_scores tbl eng query) idx
           = Some (dict_get (accumulate eng (tokenize tbl query)) idx 0 * 2)
         \<and> (dict_get (accumulate eng (tokenize tbl query)) idx 0 = 0 \<longrightarrow>
              map_of (final_scores tbl eng query) idx = Some 0)
         \<and> (\<forall>score. (idx, score) \<in> set (search_hits tbl eng query limit date_from date_to) \<longrightarrow>
              score = dict_get (accumulate eng (tokenize tbl query)) idx 0 * 2)"
proof -
  have final: "map_of (final_scores tbl eng query) idx
      = Some (dict_get (accumulate eng (tokenize tbl query)) idx 0 * 2)"
    using assms by (simp add: final_scores_def title_boost_def map_of_boost_fold)
  moreover have "score = dict_get (accumulate eng (tokenize tbl query)) idx 0 * 2"
    if "(idx, score) \<in> set (search_hits tbl eng query limit date_from date_to)" for score
  proof -
    from that have "(idx, score) \<in> set (final_scores tbl eng query)"
      using search_hits_subset by blast
    then have "map_of (final_scores tbl eng query) idx = Some score"
      using distinct_keys_final_scores by (simp add: map_of_is_SomeI)
    with final show ?thesis by simp
  qed
  ultimately show ?thesis by simp
qed

theorem title_boost_doubles_witness:
  "dict_get (accumulate (build_index (\<lambda>c. [c]) [simple_conv ''python tips'' None ''x''])
       (tokenize (\<lambda>c. [c]) (ustr ''Python''))) 0 0 = 1 / 3
   \<and> map_of (final_scores (\<lambda>c. [c])
        (build_index (\<lambda>c. [c]) [simple_conv ''python tips'' None ''x'']) (ustr ''Python'')) 0
      = Some (2 / 3)"
proof -
  let ?eng = "build_index (\<lambda>c. [c]) [simple_conv ''python tips'' None ''x'']"
  have h1: "0 < length (conversations ?eng)"
    by (simp add: build_index_def)
  have h2: "title_matches (\<lambda>c. [c]) (ustr ''Python'') (conversations ?eng ! 0)"
    by (simp add: build_index_def title_matches_def text_eval)
  have acc: "dict_get (accumulate ?eng (tokenize (\<lambda>c. [c]) (ustr ''Python''))) 0 0 = 1 / 3"
    by (simp add: text_eval index_eval search_eval)
  from title_boost_doubles [OF h1 h2, of 10 None None] acc show ?thesis by simp
qed

section \<open>Properties of the index\<close>

lemma distinct_keys_fold_update:
  "distinct (map fst d) \<Longrightarrow>
   distinct (map fst (fold (\<lambda>p d. AList.update (k p) (g p d) d) ps d))"
  by (induction ps arbitrary: d) (simp_all add: distinct_update)

lemma keys_fold_update:
  "fst ` set (fold (\<lambda>p d. AList.update (k p) (g p d) d) ps d) = k ` set ps \<union> fst ` set d"
  by (induction ps arbitrary: d) (auto simp: dom_update)

lemma map_of_bump_fold:
  "distinct xs \<Longrightarrow>
   map_of (fold (\<lambda>t df. AList.update t (dict_get df t 0 + 1) df) xs df) t
     = (if t \<in> set xs then Some (dict_get df t 0 + (1::nat)) else map_of df t)"
proof (induction xs arbitrary: df)
  case Nil
  show ?case by simp
next
  case (Cons x xs)
  then show ?case
    by (auto simp: dict_get_def AList.update_conv')
qed

lemma map_of_doc_freq_step:
  "map_of (doc_freq_step tokens df) t
     = (if t \<in> set tokens then Some (dict_get df t 0 + 1) else map_of df t)"
  using map_of_bump_fold [of "remdups tokens" df t] by (simp add: doc_freq_step_def)

lemma map_of_doc_freq_fold:
  "map_of (fold (\<lambda>conv df. doc_freq_step (tokenize tbl (full_text conv)) df) convs df) t
     = (if doc_count tbl convs t = 0 then map_of df t
        else Some (dict_get df t 0 + doc_count tbl convs t))"
proof (induction convs arbitrary: df)
  case Nil
  show ?case by (simp add: doc_count_def)
next
  case (Cons c cs)
  have dc: "doc_count tbl (c # cs) t
      = (if t \<in> set (tokenize tbl (full_text c)) then 1 else 0) + doc_count tbl cs t"
    by (simp add: doc_count_def)
  show ?case
    by (simp add: Cons.IH dc map_of_doc_freq_step dict_get_def)
qed

lemma map_of_doc_freq_of:
  "map_of (doc_freq_of tbl convs) t
     = (if doc_count tbl convs t = 0 then None else Some (doc_count tbl convs t))"
  by (simp add: doc_freq_of_def map_of_doc_freq_fold dict_get_def)

lemma distinct_keys_doc_freq_step:
  "distinct (map fst df) \<Longrightarrow> distinct (map fst (doc_freq_step tokens df))"
  using distinct_keys_fold_update
    [where d = df and k = "\<lambda>t. t" and g = "\<lambda>t df. dict_get df t 0 + (1::nat)"
       and ps = "remdups tokens"]
  by (simp add: doc_freq_step_def)

lemma distinct_keys_doc_freq_fold:
  "distinct (map fst df) \<Longrightarrow>
   distinct (map fst (fold (\<lambda>conv df. doc_freq_step (tokenize tbl (full_text conv)) df) convs df))"
  by (induction convs arbitrary: df) (simp_all add: distinct_keys_doc_freq_step)

lemma map_of_idf_fold:
  "distinct (map fst xs) \<Longrightarrow>
   map_of (fold (\<lambda>(t, df) tab. AList.update t (idf_value n df) tab) xs tab) t
     = (case map_of xs t of None \<Rightarrow> map_of tab t | Some d \<Rightarrow> Some (idf_value n d))"
proof (induction xs arbitrary: tab)
  case Nil
  show ?case by simp
next
  case (Cons x xs)
  obtain k d where x: "x = (k, d)" by (cases x)
  from Cons.prems x have "map_of xs k = None"
    by (simp add: map_of_eq_None_iff)
  with Cons x show ?case
    by (auto simp: AList.update_conv' split: option.splits)
qed

lemma idf_value_antimono: "df1 < df2 \<Longrightarrow> idf_value n df2 < idf_value n df1"
  by (simp add: idf_value_def frac_less2)

lemma map_of_idf_build:
  "map_of (idf (build_index tbl convs)) t
     = (if doc_count tbl convs t = 0 then None
        else Some (idf_value (length convs) (doc_count tbl convs t)))"
  by (simp add: build_index_def idf_of_def map_of_idf_fold doc_freq_of_def
      distinct_keys_doc_freq_fold map_of_doc_freq_of [unfolded doc_freq_of_def])

text \<open>
  C5. For the index built over a collection of N conversations, the stored inverse document
  frequency of each indexed term is \<open>ln((N + 1) / (df + 1)) + 1\<close>, where df is the number
  of conversations that contain the term (a term that no conversation contains is not
  stored); and of two stored terms, the one with the smaller document frequency has the
  greater inverse document frequency.
\<close>

theorem idf_formula_monotone:
  "map_of (idf (build_index tbl convs)) t
     = (if doc_count tbl convs t = 0 then None
        else Some (ln ((real (length convs) + 1) / (real (doc_count tbl convs t) + 1)) + 1))
   \<and> (map_of (idf (build_index tbl convs)) t1 = Some i1
        \<and> map_of (idf (build_index tbl convs)) t2 = Some i2
        \<and> doc_count tbl convs t1 < doc_count tbl convs t2 \<longrightarrow> i1 > i2)"
  using idf_value_antimono [of "doc_count tbl convs t1" "doc_count tbl convs t2" "length convs"]
  by (auto simp: map_of_idf_build idf_value_def split: if_splits)


theorem idf_formula_monotone_witness:
  "map_of (idf (build_index (\<lambda>c. [c])
      [simple_conv ''a'' None ''x'', simple_conv ''b'' None ''x'', simple_conv ''c'' None ''x'']))
      (ustr ''a'') = Some (ln 2 + 1)
   \<and> map_of (idf (build_index (\<lambda>c. [c])
      [simple_conv ''a'' None ''x'', simple_conv ''b'' None ''x'', simple_conv ''c'' None ''x'']))
      (ustr ''x'') = Some 1
   \<and> ln 2 + 1 > (1::real)"
proof -
  let ?convs = "[simple_conv ''a'' None ''x'', simple_conv ''b'' None ''x'',
    simple_conv ''c'' None ''x'']"
  have a: "doc_count (\<lambda>c. [c]) ?convs (ustr ''a'') = 1"
    by (simp add: doc_count_def text_eval)
  have x: "doc_count (\<lambda>c. [c]) ?convs (ustr ''x'') = 3"
    by (simp add: doc_count_def text_eval)
  have ia: "map_of (idf (build_index (\<lambda>c. [c]) ?convs)) (ustr ''a'') = Some (ln 2 + 1)"
    using idf_formula_monotone [of "\<lambda>c. [c]" ?convs "ustr ''a''"] by (simp add: a)
  have ix: "map_of (idf (build_index (\<lambda>c. [c]) ?convs)) (ustr ''x'') = Some 1"
    using idf_formula_monotone [of "\<lambda>c. [c]" ?convs "ustr ''x''"] by (simp add: x)
  from idf_formula_monotone [of "\<lambda>c. [c]" ?convs _ "ustr ''a''" "ln 2 + 1" "ustr ''x''" 1] ia ix a x
  show ?thesis by simp
qed

lemma dict_get_posting_fold:
  "distinct (map fst items) \<Longrightarrow>
   dict_get (fold (\<lambda>(t, count) ind. AList.update t (dict_get ind t [] @ [(idx, h count)]) ind)
       items ind) t []
     = dict_get ind t [] @ (case map_of items t of None \<Rightarrow> [] | Some c \<Rightarrow> [(idx, h c)])"
proof (induction items arbitrary: ind)
  case Nil
  show ?case by simp
next
  case (Cons x xs)
  obtain k c where x: "x = (k, c)" by (cases x)
  from Cons.prems x have "map_of xs k = None"
    by (simp add: map_of_eq_None_iff)
  with Cons x show ?case
    by (auto simp: dict_get_def AList.update_conv' split: option.splits)
qed

lemma dict_get_index_step:
  "distinct (map fst tf) \<Longrightarrow>
   dict_get (index_step (idx, tf) ind) t []
     = dict_get ind t []
       @ (case map_of tf t of None \<Rightarrow> []
          | Some c \<Rightarrow> [(idx, real c / real (total_tokens_of tf))])"
  using dict_get_posting_fold
    [where items = tf and ind = ind and idx = idx and t = t
       and h = "\<lambda>c. real c / real (total_tokens_of tf)"]
  by (simp add: index_step_def)

lemma dict_get_index_fold:
  "\<forall>tf \<in> set tfs. distinct (map fst tf) \<Longrightarrow>
   dict_get (fold index_step (enumerate n tfs) ind) t []
     = dict_get ind t []
       @ concat (map (\<lambda>(i, tf). case map_of tf t of None \<Rightarrow> []
                       | Some c \<Rightarrow> [(i, real c / real (total_tokens_of tf))])
           (enumerate n tfs))"
proof (induction tfs arbitrary: n ind)
  case Nil
  show ?case by simp
next
  case (Cons tf tfs)
  then show ?case by (simp add: dict_get_index_step)
qed

lemma distinct_keys_Counter: "distinct (map fst (Counter tokens))"
  using distinct_keys_fold_update
    [where d = "[]" and k = "\<lambda>t. t" and g = "\<lambda>t c. dict_get c t 0 + (1::nat)" and ps = tokens]
  by (simp add: Counter_def)

lemma keys_Counter: "fst ` set (Counter tokens) = set tokens"
  using keys_fold_update
    [where d = "[]" and k = "\<lambda>t. t" and g = "\<lambda>t c. dict_get c t 0 + (1::nat)" and ps = tokens]
  by (simp add: Counter_def)

lemma postings_build_index:
  "dict_get (index (build_index tbl convs)) t []
     = concat (map (\<lambda>(i, tf). case map_of tf t of None \<Rightarrow> []
                       | Some c \<Rightarrow> [(i, real c / real (total_tokens_of tf))])
           (enumerate 0 (tf_per_doc_of tbl convs)))"
proof -
  have "\<forall>tf \<in> set (tf_per_doc_of tbl convs). distinct (map fst tf)"
    by (auto simp: tf_per_doc_of_def distinct_keys_Counter)
  from dict_get_index_fold [OF this, of 0 "[]" t] show ?thesis
    by (simp add: build_index_def index_of_def dict_get_def)
qed

lemma posting_sound:
  assumes "(i, x) \<in> set (dict_get (index (build_index tbl convs)) t [])"
  shows "i < length convs \<and> t \<in> set (tokenize tbl (full_text (convs ! i)))"
proof -
  from assms obtain j tf where
    jt: "(j, tf) \<in> set (enumerate 0 (tf_per_doc_of tbl convs))"
    and mem: "(i, x) \<in> set (case map_of tf t of None \<Rightarrow> []
                | Some c \<Rightarrow> [(j, real c / real (total_tokens_of tf))])"
    by (auto simp: postings_build_index)
  then obtain c where c: "map_of tf t = Some c" and ix: "i = j"
    by (cases "map_of tf t") auto
  from jt have j: "j < length convs"
    and tf: "tf = Counter (tokenize tbl (full_text (convs ! j)))"
    by (auto simp: in_set_enumerate_eq tf_per_doc_of_def)
  from c have "t \<in> fst ` set tf" by (metis domI dom_map_of_conv_image_fst)
  with tf have "t \<in> set (tokenize tbl (full_text (convs ! j)))" by (simp add: keys_Counter)
  with j ix show ?thesis by simp
qed

lemma keys_score_token:
  "fst ` set (score_token eng tok sc) = fst ` set (dict_get (index eng) tok []) \<union> fst ` set sc"
  using keys_fold_update
    [of fst "\<lambda>p sc. dict_get sc (fst p) 0 + snd p * dict_get (idf eng) tok 0"
       "dict_get (index eng) tok []" sc]
  by (simp add: score_token_def case_prod_unfold)

lemma keys_accumulate_from:
  "fst ` set (fold (score_token eng) toks sc)
     = (\<Union>tok\<in>set toks. fst ` set (dict_get (index eng) tok [])) \<union> fst ` set sc"
  by (induction toks arbitrary: sc) (auto simp: keys_score_token)

lemma keys_boost:
  "fst ` set (fold (boost_step tbl q) (enumerate n cs) sc)
     \<subseteq> fst ` set sc \<union> {n ..< n + length cs}"
proof (induction cs arbitrary: n sc)
  case Nil
  show ?case by simp
next
  case (Cons c cs)
  have a: "fst ` set (boost_step tbl q (n, c) sc) \<subseteq> fst ` set sc \<union> {n}"
    by (auto simp: boost_step_def dom_update)
  have b: "fold (boost_step tbl q) (enumerate n (c # cs)) sc
      = fold (boost_step tbl q) (enumerate (Suc n) cs) (boost_step tbl q (n, c) sc)"
    by simp
  have c1: "{Suc n ..< Suc n + length cs} \<subseteq> {n ..< n + length (c # cs)}" by auto
  have c2: "{n} \<subseteq> {n ..< n + length (c # cs)}" by auto
  from Cons [of "Suc n" "boost_step tbl q (n, c) sc"] a c1 c2 show ?case
    unfolding b by blast
qed


section \<open>Title matches without a common token\<close>

lemma search_hits_sorted:
  "sorted_wrt (\<lambda>a b. snd a \<ge> snd b) (search_hits tbl eng query limit date_from date_to)"
  by (auto simp: search_hits_take_filter intro!: sorted_wrt_take sorted_wrt_filter
      py_sort_reverse_descending)

lemma search_sorted:
  "sorted_wrt (\<lambda>a b. snd a \<ge> snd b) (search tbl eng query limit date_from date_to)"
  using search_hits_sorted [of tbl eng query limit date_from date_to]
  by (simp add: search_def sorted_wrt_map case_prod_unfold)

lemma keys_accumulate_build:
  assumes "i \<in> fst ` set (accumulate (build_index tbl convs) toks)"
  shows "i < length convs
         \<and> set toks \<inter> set (tokenize tbl (full_text (convs ! i))) \<noteq> {}"
proof -
  from assms obtain tok x where tok: "tok \<in> set toks"
    and "(i, x) \<in> set (dict_get (index (build_index tbl convs)) tok [])"
    by (auto simp: accumulate_def keys_accumulate_from)
  from posting_sound [OF this(2)] tok show ?thesis by auto
qed

lemma keys_final_scores_build:
  "fst ` set (final_scores tbl (build_index tbl convs) query) \<subseteq> {..< length convs}"
proof -
  have "fst ` set (accumulate (build_index tbl convs) (tokenize tbl query)) \<subseteq> {..< length convs}"
    using keys_accumulate_build [of _ tbl convs "tokenize tbl query"] by auto
  moreover have "conversations (build_index tbl convs) = convs"
    by (simp add: build_index_def)
  ultimately have "fst ` set (final_scores tbl (build_index tbl convs) query)
      \<subseteq> fst ` set (accumulate (build_index tbl convs) (tokenize tbl query))
        \<union> {0 ..< length convs}"
    using keys_boost [of tbl query 0 convs "accumulate (build_index tbl convs) (tokenize tbl query)"]
    by (simp add: final_scores_def title_boost_def)
  also have "\<dots> \<subseteq> {..< length convs}"
    using \<open>fst ` set (accumulate (build_index tbl convs) (tokenize tbl query)) \<subseteq> {..< length convs}\<close>
    by auto
  finally show ?thesis .
qed

lemma length_final_scores_build:
  "length (final_scores tbl (build_index tbl convs) query) \<le> length convs"
proof -
  let ?keys = "map fst (final_scores tbl (build_index tbl convs) query)"
  have "card (set ?keys) = length ?keys"
    by (rule distinct_card) (rule distinct_keys_final_scores)
  then have "length ?keys = card (set ?keys)" by simp
  also have "\<dots> \<le> card {..< length convs}"
    using keys_final_scores_build [of tbl convs query] by (intro card_mono) auto
  finally show ?thesis by simp
qed

text \<open>
  C10. For a query with at least one token, a conversation that contains none of the
  query's tokens, but whose lowercased title contains the lowercased query string, is in the
  ranking with the score 0: \<open>search\<close> returns the first \<open>limit\<close> entries of the ranking
  that pass the date tests, so the conversation is returned when it passes them and the limit
  does not cut it off, and it comes after every returned conversation with a positive score.
\<close>

theorem title_only_match_scores_zero:
  assumes "tokenize tbl query \<noteq> []"
    and "idx < length convs"
    and "set (tokenize tbl query) \<inter> set (tokenize tbl (full_text (convs ! idx))) = {}"
    and "title_matches tbl query (convs ! idx)"
    and "1 \<le> limit"
  shows "search tbl (build_index tbl convs) query limit date_from date_to
           = map (\<lambda>(i, score). (convs ! i, score))
               (take (nat limit)
                  (filter (passes convs (date_bound date_from) (date_bound date_to))
                     (py_sort_reverse snd (final_scores tbl (build_index tbl convs) query))))
         \<and> (idx, 0) \<in> set (py_sort_reverse snd (final_scores tbl (build_index tbl convs) query))
         \<and> (passes convs (date_bound date_from) (date_bound date_to) (idx, 0)
              \<and> int (length convs) \<le> limit \<longrightarrow>
              (convs ! idx, 0)
                \<in> set (search tbl (build_index tbl convs) query limit date_from date_to))
         \<and> (\<forall>j k. j < length (search tbl (build_index tbl convs) query limit date_from date_to)
              \<and> k < length (search tbl (build_index tbl convs) query limit date_from date_to)
              \<and> 0 < snd (search tbl (build_index tbl convs) query limit date_from date_to ! j)
              \<and> snd (search tbl (build_index tbl convs) query limit date_from date_to ! k) = 0
              \<longrightarrow> j < k)"
proof -
  let ?eng = "build_index tbl convs"
  let ?ranked = "py_sort_reverse snd (final_scores tbl ?eng query)"
  let ?pass = "passes convs (date_bound date_from) (date_bound date_to)"
  let ?r = "search tbl ?eng query limit date_from date_to"
  have convs: "conversations ?eng = convs" by (simp add: build_index_def)
  have hits: "search_hits tbl ?eng query limit date_from date_to
      = take (nat limit) (filter ?pass ?ranked)"
    using assms(1,5) by (simp add: search_hits_take_filter convs max_def)
  have eq: "?r = map (\<lambda>(i, score). (convs ! i, score)) (take (nat limit) (filter ?pass ?ranked))"
    by (simp add: search_def hits convs)
  have "idx \<notin> fst ` set (accumulate ?eng (tokenize tbl query))"
    using keys_accumulate_build [of idx tbl convs "tokenize tbl query"] assms(3) by blast
  then have "map_of (accumulate ?eng (tokenize tbl query)) idx = None"
    by (simp add: map_of_eq_None_iff)
  then have "map_of (final_scores tbl ?eng query) idx = Some 0"
    using assms(2,4)
    by (simp add: final_scores_def title_boost_def map_of_boost_fold convs dict_get_def)
  then have "(idx, 0) \<in> set (final_scores tbl ?eng query)"
    by (rule map_of_SomeD)
  then have ranked: "(idx, 0) \<in> set ?ranked"
    by (simp add: set_py_sort_reverse)
  have incl: "(convs ! idx, 0) \<in> set ?r"
    if "?pass (idx, 0)" "int (length convs) \<le> limit"
  proof -
    have "length (filter ?pass ?ranked) \<le> length ?ranked" by simp
    also have "\<dots> \<le> length convs"
      using length_final_scores_build [of tbl convs query] by (simp add: py_sort_reverse_def)
    finally have "take (nat limit) (filter ?pass ?ranked) = filter ?pass ?ranked"
      using that(2) by simp
    moreover from ranked that(1) have "(idx, 0) \<in> set (filter ?pass ?ranked)" by simp
    ultimately have "(idx, 0) \<in> set (take (nat limit) (filter ?pass ?ranked))" by simp
    then show ?thesis unfolding eq by force
  qed
  have order: "j < k"
    if "j < length ?r" "k < length ?r" "0 < snd (?r ! j)" "snd (?r ! k) = 0" for j k
  proof (rule ccontr)
    assume "\<not> j < k"
    with that(3,4) have "k < j" by (cases "j = k") auto
    with search_sorted [of tbl ?eng query limit date_from date_to] that(1)
    have "snd (?r ! k) \<ge> snd (?r ! j)"
      by (simp add: sorted_wrt_iff_nth_less)
    with that(3,4) show False by simp
  qed
  from eq ranked incl order show ?thesis by blast
qed

theorem title_only_match_scores_zero_witness:
  "(simple_conv ''concatenate'' (Some 100) ''x'', 0)
     \<in> set (search (\<lambda>c. [c])
          (build_index (\<lambda>c. [c])
             [simple_conv ''cats'' (Some 200) ''cat'',
              simple_conv ''concatenate'' (Some 100) ''x''])
          (ustr ''cat'') 10 None None)"
proof -
  let ?convs = "[simple_conv ''cats'' (Some 200) ''cat'',
    simple_conv ''concatenate'' (Some 100) ''x'']"
  have h1: "tokenize (\<lambda>c. [c]) (ustr ''cat'') \<noteq> []"
    by (simp add: text_eval)
  have h2: "1 < length ?convs" by simp
  have h3: "set (tokenize (\<lambda>c. [c]) (ustr ''cat''))
      \<inter> set (tokenize (\<lambda>c. [c]) (full_text (?convs ! 1))) = {}"
    by (simp add: text_eval)
  have h4: "title_matches (\<lambda>c. [c]) (ustr ''cat'') (?convs ! 1)"
    by (simp add: title_matches_def text_eval)
  have h5: "(1::int) \<le> 10" by simp
  have h6: "passes ?convs (date_bound None) (date_bound None) (1, 0)"
    by (simp add: passes_def date_bound_def skipped_def)
  have h7: "int (length ?convs) \<le> 10" by simp
  have nth: "?convs ! 1 = simple_conv ''concatenate'' (Some 100) ''x''" by simp
  from title_only_match_scores_zero [OF h1 h2 h3 h4 h5, of None None] h6 h7
  have "(?convs ! 1, 0) \<in> set (search (\<lambda>c. [c]) (build_index (\<lambda>c. [c]) ?convs)
      (ustr ''cat'') 10 None None)"
    by blast
  then show ?thesis unfolding nth .
qed

section \<open>Order of the search results\<close>

lemma sorted_wrt_subseq: "subseq xs ys \<Longrightarrow> sorted_wrt P ys \<Longrightarrow> sorted_wrt P xs"
proof (induction rule: list_emb.induct)
  case (list_emb_Nil ys)
  show ?case by simp
next
  case (list_emb_Cons xs ys y)
  then show ?case by simp
next
  case (list_emb_Cons2 x y xs ys)
  then have "set xs \<subseteq> set ys" by (auto dest: list_emb_set)
  with list_emb_Cons2 show ?case by auto
qed

lemma update_all:
  "\<forall>p \<in> set al. P p \<Longrightarrow> P (k, v) \<Longrightarrow> \<forall>p \<in> set (AList.update k v al). P p"
  by (induction al) auto

lemma update_append_in:
  "k \<in> fst ` set A \<Longrightarrow> AList.update k v (A @ B) = AList.update k v A @ B"
  by (induction A) auto

lemma update_append_notin:
  "k \<notin> fst ` set al \<Longrightarrow> AList.update k v al = al @ [(k, v)]"
  by (induction al) auto

lemma keys_order_fold_update:
  "distinct (map k ps) \<Longrightarrow>
   map fst (fold (\<lambda>p d. AList.update (k p) (g p d) d) ps d)
     = map fst d @ filter (\<lambda>x. x \<notin> fst ` set d) (map k ps)"
proof (induction ps arbitrary: d)
  case Nil
  show ?case by simp
next
  case (Cons p ps)
  let ?d = "AList.update (k p) (g p d) d"
  have keys: "map fst ?d = (if k p \<in> fst ` set d then map fst d else map fst d @ [k p])"
    by (simp add: update_keys)
  have set_keys: "fst ` set ?d = insert (k p) (fst ` set d)"
    by (simp add: dom_update)
  from Cons.prems have notin: "k p \<notin> set (map k ps)" and dist: "distinct (map k ps)" by auto
  have "filter (\<lambda>x. x \<notin> insert (k p) (fst ` set d)) (map k ps)
      = filter (\<lambda>x. x \<notin> fst ` set d) (map k ps)"
    using notin by (intro filter_cong refl) (auto simp: image_iff)
  with Cons.IH [OF dist, of ?d] keys set_keys show ?case by auto
qed

lemma posting_keys_sorted_from:
  assumes "\<And>i tf. F (i, tf) = [] \<or> (\<exists>x. F (i, tf) = [(i, x)])"
  shows "sorted_wrt (<) (map fst (concat (map F (enumerate n tfs))))
         \<and> (\<forall>key \<in> set (map fst (concat (map F (enumerate n tfs)))). n \<le> key)"
proof (induction tfs arbitrary: n)
  case Nil
  show ?case by simp
next
  case (Cons tf tfs)
  from assms [of n tf] Cons [of "Suc n"] show ?case
    by (auto simp: sorted_wrt_append) (fastforce simp: less_eq_Suc_le)+
qed

lemma posting_keys_sorted:
  "sorted_wrt (<) (map fst (dict_get (index (build_index tbl convs)) t []))"
proof -
  have "(case map_of tf t of None \<Rightarrow> [] | Some c \<Rightarrow> [(i, real c / real (total_tokens_of tf))]) = []
      \<or> (\<exists>x. (case map_of tf t of None \<Rightarrow> []
              | Some c \<Rightarrow> [(i, real c / real (total_tokens_of tf))]) = [(i, x)])"
    for i :: nat and tf :: "(pystr \<times> nat) list"
    by (cases "map_of tf t") auto
  from posting_keys_sorted_from
    [of "\<lambda>(i, tf). case map_of tf t of None \<Rightarrow> []
           | Some c \<Rightarrow> [(i, real c / real (total_tokens_of tf))]" 0 "tf_per_doc_of tbl convs", simplified, OF this]
  show ?thesis by (simp add: postings_build_index)
qed


lemma Counter_positive_from:
  "\<forall>p \<in> set c. 0 < snd p \<Longrightarrow>
   \<forall>p \<in> set (fold (\<lambda>t c. AList.update t (dict_get c t 0 + (1::nat)) c) toks c). 0 < snd p"
proof (induction toks arbitrary: c)
  case Nil
  then show ?case by simp
next
  case (Cons a toks)
  have "\<forall>p \<in> set (AList.update a (dict_get c a 0 + (1::nat)) c). 0 < snd p"
    using Cons.prems by (intro update_all) auto
  from Cons.IH [OF this] show ?case by simp
qed

lemma Counter_positive: "\<forall>p \<in> set (Counter toks). 0 < snd p"
  using Counter_positive_from [of "[]" toks] by (simp add: Counter_def)

lemma total_tokens_positive: "0 < total_tokens_of tf"
proof -
  have "0 < (if n = 0 then 1 else n)" for n :: nat by simp
  then show ?thesis unfolding total_tokens_of_def Let_def .
qed

lemma posting_positive:
  assumes "(i, x) \<in> set (dict_get (index (build_index tbl convs)) t [])"
  shows "0 < x"
proof -
  from assms obtain j tf where
    jt: "(j, tf) \<in> set (enumerate 0 (tf_per_doc_of tbl convs))"
    and mem: "(i, x) \<in> set (case map_of tf t of None \<Rightarrow> []
                | Some c \<Rightarrow> [(j, real c / real (total_tokens_of tf))])"
    by (auto simp: postings_build_index)
  then obtain c where c: "map_of tf t = Some c" and x: "x = real c / real (total_tokens_of tf)"
    by (cases "map_of tf t") auto
  from jt obtain toks where "tf = Counter toks"
    by (auto simp: in_set_enumerate_eq tf_per_doc_of_def)
  moreover from c have "(t, c) \<in> set tf" by (rule map_of_SomeD)
  ultimately have "0 < snd (t, c)" using Counter_positive [of toks] by blast
  then have "0 < c" by simp
  with x total_tokens_positive [of tf] show ?thesis by simp
qed

lemma idf_value_ge_1: "df \<le> n \<Longrightarrow> 1 \<le> idf_value n df"
  by (simp add: idf_value_def)

lemma posting_idf_positive:
  assumes "(i, x) \<in> set (dict_get (index (build_index tbl convs)) t [])"
  shows "0 < dict_get (idf (build_index tbl convs)) t 0"
proof -
  from posting_sound [OF assms] have "convs ! i \<in> set convs"
    and "t \<in> set (tokenize tbl (full_text (convs ! i)))" by auto
  then have "filter (\<lambda>conv. t \<in> set (tokenize tbl (full_text conv))) convs \<noteq> []"
    by (auto simp: filter_empty_conv)
  then have pos: "doc_count tbl convs t \<noteq> 0" by (simp add: doc_count_def)
  have "doc_count tbl convs t \<le> length convs" by (simp add: doc_count_def)
  from idf_value_ge_1 [OF this] pos show ?thesis
    by (simp add: dict_get_def map_of_idf_build)
qed

lemma score_fold_positive:
  "\<forall>p \<in> set sc. 0 < snd p \<Longrightarrow> \<forall>q \<in> set ps. 0 < snd q * w \<Longrightarrow>
   \<forall>p \<in> set (fold (\<lambda>(idx, tf) sc. AList.update idx (dict_get sc idx 0 + tf * w) sc) ps sc).
     (0::real) < snd p"
proof (induction ps arbitrary: sc)
  case Nil
  then show ?case by simp
next
  case (Cons q ps)
  obtain idx tf where q: "q = (idx, tf)" by (cases q)
  have "0 \<le> dict_get sc idx 0"
    using Cons.prems(1) by (auto simp: dict_get_def split: option.splits dest!: map_of_SomeD)
  with Cons.prems(2) q have "0 < dict_get sc idx 0 + tf * w" by auto
  with Cons.prems(1) have "\<forall>p \<in> set (AList.update idx (dict_get sc idx 0 + tf * w) sc). 0 < snd p"
    by (intro update_all) auto
  from Cons.IH [OF this] Cons.prems(2) q show ?case by simp
qed

lemma score_token_positive:
  "\<forall>p \<in> set sc. 0 < snd p \<Longrightarrow>
   \<forall>p \<in> set (score_token (build_index tbl convs) t sc). 0 < snd p"
proof -
  assume sc: "\<forall>p \<in> set sc. 0 < snd p"
  have "\<forall>q \<in> set (dict_get (index (build_index tbl convs)) t []).
      0 < snd q * dict_get (idf (build_index tbl convs)) t 0"
    using posting_positive [of _ _ tbl convs t] posting_idf_positive [of _ _ tbl convs t]
    by auto
  from score_fold_positive [OF sc this] show ?thesis
    by (simp add: score_token_def)
qed

lemma accumulate_positive_from:
  "\<forall>p \<in> set sc. 0 < snd p \<Longrightarrow>
   \<forall>p \<in> set (fold (score_token (build_index tbl convs)) toks sc). 0 < snd p"
proof (induction toks arbitrary: sc)
  case Nil
  then show ?case by simp
next
  case (Cons a toks)
  have "\<forall>p \<in> set (score_token (build_index tbl convs) a sc). 0 < snd p"
    by (rule score_token_positive) fact
  from Cons.IH [OF this] show ?case by simp
qed

lemma accumulate_positive:
  "\<forall>p \<in> set (accumulate (build_index tbl convs) toks). 0 < snd p"
  using accumulate_positive_from [of "[]" tbl convs toks] by (simp add: accumulate_def)

lemma keys_order_score_token:
  assumes "distinct (map fst (dict_get (index eng) t []))"
  shows "map fst (score_token eng t sc)
     = map fst sc @ filter (\<lambda>x. x \<notin> fst ` set sc) (map fst (dict_get (index eng) t []))"
proof -
  have "score_token eng t sc
      = fold (\<lambda>p d. AList.update (fst p) (dict_get d (fst p) 0 + snd p * dict_get (idf eng) t 0) d)
          (dict_get (index eng) t []) sc"
    by (simp add: score_token_def case_prod_unfold)
  then show ?thesis
    by (simp only: keys_order_fold_update [OF assms])
qed

lemma keys_order_single_token_from:
  assumes "distinct (map fst (dict_get (index eng) t []))" and "\<forall>tok \<in> set toks. tok = t"
  shows "map fst (fold (score_token eng) toks sc)
         = (if toks = [] then map fst sc
            else map fst sc
              @ filter (\<lambda>x. x \<notin> fst ` set sc) (map fst (dict_get (index eng) t [])))"
  using assms(2)
proof (induction toks arbitrary: sc)
  case Nil
  show ?case by simp
next
  case (Cons tok toks)
  then have tok: "tok = t" and rest: "\<forall>tok \<in> set toks. tok = t" by auto
  let ?sc = "score_token eng t sc"
  let ?ps = "map fst (dict_get (index eng) t [])"
  have keys: "map fst ?sc = map fst sc @ filter (\<lambda>x. x \<notin> fst ` set sc) ?ps"
    by (rule keys_order_score_token [OF assms(1)])
  have none: "filter (\<lambda>x. x \<notin> fst ` set ?sc) ?ps = []"
    unfolding filter_empty_conv keys_score_token by auto
  have "map fst (fold (score_token eng) toks ?sc) = map fst ?sc"
  proof (cases "toks = []")
    case True
    then show ?thesis by simp
  next
    case False
    with Cons.IH [OF rest, of ?sc] show ?thesis by (simp only: none if_False append_Nil2)
  qed
  with keys tok show ?case by simp
qed

lemma keys_order_single_token:
  assumes "set toks = {t}"
  shows "map fst (accumulate (build_index tbl convs) toks)
         = map fst (dict_get (index (build_index tbl convs)) t [])"
proof -
  have d: "distinct (map fst (dict_get (index (build_index tbl convs)) t []))"
    using posting_keys_sorted [of tbl convs t] by (simp add: strict_sorted_iff)
  from assms have ne: "toks \<noteq> []" by (cases toks) simp_all
  from assms have all: "\<forall>tok \<in> set toks. tok = t" by simp
  from keys_order_single_token_from [OF d all, of "[]"] ne show ?thesis
    by (simp add: accumulate_def)
qed

lemma boost_keeps_shape:
  assumes "\<forall>p \<in> set A. 0 < snd p" and "\<forall>p \<in> set B. snd p = 0 \<and> fst p < n"
    and "sorted_wrt (<) (map fst B)"
  shows "\<exists>A' B'. fold (boost_step tbl q) (enumerate n cs) (A @ B) = A' @ B'
           \<and> map fst A' = map fst A \<and> (\<forall>p \<in> set A'. 0 < snd p)
           \<and> (\<forall>p \<in> set B'. snd p = 0) \<and> sorted_wrt (<) (map fst B')"
  using assms
proof (induction cs arbitrary: n A B)
  case Nil
  then show ?case by auto
next
  case (Cons c cs)
  have step: "fold (boost_step tbl q) (enumerate n (c # cs)) (A @ B)
      = fold (boost_step tbl q) (enumerate (Suc n) cs) (boost_step tbl q (n, c) (A @ B))"
    by simp
  have B_lt: "\<forall>p \<in> set B. snd p = 0 \<and> fst p < Suc n"
    using Cons.prems(2) by auto
  show ?case
  proof (cases "title_matches tbl q c")
    case False
    then have "boost_step tbl q (n, c) (A @ B) = A @ B" by (simp add: boost_step_def)
    with Cons.IH [OF Cons.prems(1) B_lt Cons.prems(3)] show ?thesis
      unfolding step by (simp only:)
  next
    case True
    then have bs: "boost_step tbl q (n, c) (A @ B)
        = AList.update n (dict_get (A @ B) n 0 * 2) (A @ B)"
      by (simp add: boost_step_def)
    have nB: "n \<notin> fst ` set B" using Cons.prems(2) by auto
    show ?thesis
    proof (cases "n \<in> fst ` set A")
      case True
      then obtain v where v: "map_of (A @ B) n = Some v" and vA: "(n, v) \<in> set A"
        by (cases "map_of A n") (auto simp: map_of_eq_None_iff dest: map_of_SomeD)
      with Cons.prems(1) have "0 < v" by auto
      let ?A = "AList.update n (v * 2) A"
      have eq: "boost_step tbl q (n, c) (A @ B) = ?A @ B"
        using v True by (simp add: bs dict_get_def update_append_in)
      have pos: "\<forall>p \<in> set ?A. 0 < snd p"
        using Cons.prems(1) \<open>0 < v\<close> by (intro update_all) auto
      have keys: "map fst ?A = map fst A" using True by (simp add: update_keys)
      from Cons.IH [OF pos B_lt Cons.prems(3)] obtain A' B' where
        "fold (boost_step tbl q) (enumerate (Suc n) cs) (?A @ B) = A' @ B'"
        "map fst A' = map fst ?A" "\<forall>p \<in> set A'. 0 < snd p"
        "\<forall>p \<in> set B'. snd p = 0" "sorted_wrt (<) (map fst B')"
        by blast
      with keys show ?thesis
        unfolding step eq by (intro exI [of _ A'] exI [of _ B']) (simp only: simp_thms)
    next
      case False
      with nB have notin: "n \<notin> fst ` set (A @ B)" by (auto simp: image_Un)
      then have none: "map_of (A @ B) n = None"
        by (auto simp: map_of_eq_None_iff image_Un)
      let ?B = "B @ [(n, 0)]"
      have dg: "dict_get (A @ B) n 0 = 0" unfolding dict_get_def none by simp
      have eq: "boost_step tbl q (n, c) (A @ B) = A @ ?B"
        unfolding bs dg update_append_notin [OF notin] by simp
      have B': "\<forall>p \<in> set ?B. snd p = 0 \<and> fst p < Suc n"
        using Cons.prems(2) by auto
      have sorted: "sorted_wrt (<) (map fst ?B)"
        using Cons.prems(2,3) by (auto simp: sorted_wrt_append)
      from Cons.IH [OF Cons.prems(1) B' sorted] show ?thesis
        unfolding step eq by (simp only: append_assoc)
    qed
  qed
qed

lemma single_token_ties_in_collection_order:
  assumes "set (tokenize tbl query) = {t}"
  shows "sorted_wrt (<)
     (map fst (filter (\<lambda>hit. snd hit = s) (final_scores tbl (build_index tbl convs) query)))"
proof -
  let ?eng = "build_index tbl convs"
  let ?acc = "accumulate ?eng (tokenize tbl query)"
  have keys: "sorted_wrt (<) (map fst ?acc)"
    using keys_order_single_token [OF assms, of tbl convs] posting_keys_sorted [of tbl convs t]
    by simp
  from boost_keeps_shape [of ?acc "[]" 0 tbl query convs] accumulate_positive [of tbl convs]
  obtain A B where fs: "final_scores tbl ?eng query = A @ B"
    and kA: "map fst A = map fst ?acc" and pA: "\<forall>p \<in> set A. 0 < snd p"
    and zB: "\<forall>p \<in> set B. snd p = 0" and sB: "sorted_wrt (<) (map fst B)"
    by (auto simp: final_scores_def title_boost_def build_index_def)
  have sA: "sorted_wrt (\<lambda>a b. fst a < fst b) A"
    using keys kA by (simp add: sorted_wrt_map [symmetric])
  have sB': "sorted_wrt (\<lambda>a b. fst a < fst b) B"
    using sB by (simp add: sorted_wrt_map)
  show ?thesis
  proof (cases "s = 0")
    case True
    with pA have "filter (\<lambda>hit. snd hit = s) A = []" by (auto simp: filter_empty_conv)
    with fs sB' show ?thesis by (simp add: sorted_wrt_map sorted_wrt_filter)
  next
    case False
    with zB have "filter (\<lambda>hit. snd hit = s) B = []" by (auto simp: filter_empty_conv)
    with fs sA show ?thesis by (simp add: sorted_wrt_map sorted_wrt_filter)
  qed
qed

text \<open>
  C1 (amended). For every index and every query, for every choice of limit and date filters,
  the sequence returned by \<open>search\<close> is sorted by score in descending order, and the
  returned conversations with one and the same score appear in the order in which they
  entered the score table (the insertion order of the \<open>scores\<close> dict). For an index built
  over a Collection and a query whose tokens are all the same term, that is the Collection
  order: the positions of returned conversations with equal scores increase.
\<close>

theorem search_sorted_ties_first_scored:
  "sorted_wrt (\<lambda>a b. snd a \<ge> snd b) (search tbl eng query limit date_from date_to)
   \<and> search tbl eng query limit date_from date_to
       = map (\<lambda>(idx, score). (conversations eng ! idx, score))
           (search_hits tbl eng query limit date_from date_to)
   \<and> subseq (filter (\<lambda>hit. snd hit = s) (search_hits tbl eng query limit date_from date_to))
        (filter (\<lambda>hit. snd hit = s) (final_scores tbl eng query))
   \<and> (eng = build_index tbl convs \<and> set (tokenize tbl query) = {t} \<longrightarrow>
        sorted_wrt (<)
          (map fst (filter (\<lambda>hit. snd hit = s)
             (search_hits tbl eng query limit date_from date_to))))"
proof -
  let ?ranked = "py_sort_reverse snd (final_scores tbl eng query)"
  let ?hits = "search_hits tbl eng query limit date_from date_to"
  have sub: "subseq ?hits ?ranked"
  proof (cases "tokenize tbl query = []")
    case True
    then show ?thesis by (simp add: search_hits_def)
  next
    case False
    have "subseq (take (nat (max 1 limit))
        (filter (passes (conversations eng) (date_bound date_from) (date_bound date_to)) ?ranked))
      (filter (passes (conversations eng) (date_bound date_from) (date_bound date_to)) ?ranked)"
      by (rule subseq_take_left)
    also have "subseq \<dots> ?ranked" by simp
    finally show ?thesis using False by (simp add: search_hits_take_filter)
  qed
  have "sorted_wrt (\<lambda>a b. snd a \<ge> snd b) (search tbl eng query limit date_from date_to)"
    by (rule search_sorted)
  moreover have ties: "subseq (filter (\<lambda>hit. snd hit = s) ?hits)
      (filter (\<lambda>hit. snd hit = s) (final_scores tbl eng query))"
    using subseq_filter [OF sub, of "\<lambda>hit. snd hit = s"]
    by (simp add: py_sort_reverse_stable)
  moreover have "sorted_wrt (<) (map fst (filter (\<lambda>hit. snd hit = s) ?hits))"
    if "eng = build_index tbl convs" "set (tokenize tbl query) = {t}"
  proof -
    have "sorted_wrt (<) (map fst (filter (\<lambda>hit. snd hit = s) (final_scores tbl eng query)))"
      using single_token_ties_in_collection_order [OF that(2), of s convs] that(1) by simp
    moreover have "subseq (map fst (filter (\<lambda>hit. snd hit = s) ?hits))
        (map fst (filter (\<lambda>hit. snd hit = s) (final_scores tbl eng query)))"
      using ties by (rule subseq_map)
    ultimately show ?thesis by (rule sorted_wrt_subseq [rotated])
  qed
  ultimately show ?thesis by (simp add: search_def)
qed

theorem search_sorted_ties_first_scored_witness:
  "search (\<lambda>c. [c])
     (build_index (\<lambda>c. [c])
        [simple_conv ''a'' (Some 200) ''x'', simple_conv ''a'' (Some 100) ''x''])
     (ustr ''a'') 10 None None
   = [(simple_conv ''a'' (Some 200) ''x'', 1), (simple_conv ''a'' (Some 100) ''x'', 1)]
   \<and> sorted_wrt (\<lambda>a b. snd a \<ge> snd b)
       (search (\<lambda>c. [c])
          (build_index (\<lambda>c. [c])
             [simple_conv ''a'' (Some 200) ''x'', simple_conv ''a'' (Some 100) ''x''])
          (ustr ''a'') 10 None None)
   \<and> sorted_wrt (<)
       (map fst (filter (\<lambda>hit. snd hit = 1)
          (search_hits (\<lambda>c. [c])
             (build_index (\<lambda>c. [c])
                [simple_conv ''a'' (Some 200) ''x'', simple_conv ''a'' (Some 100) ''x''])
             (ustr ''a'') 10 None None)))"
proof -
  let ?convs = "[simple_conv ''a'' (Some 200) ''x'', simple_conv ''a'' (Some 100) ''x'']"
  have ev: "search (\<lambda>c. [c]) (build_index (\<lambda>c. [c]) ?convs) (ustr ''a'') 10 None None
      = [(simple_conv ''a'' (Some 200) ''x'', 1), (simple_conv ''a'' (Some 100) ''x'', 1)]"
    by (simp add: text_eval index_eval search_eval)
  have h: "set (tokenize (\<lambda>c. [c]) (ustr ''a'')) = {ustr ''a''}"
    by (simp add: text_eval)
  from search_sorted_ties_first_scored
    [of "\<lambda>c. [c]" "build_index (\<lambda>c. [c]) ?convs" "ustr ''a''" 10 None None 1 ?convs
       "ustr ''a''"] h ev
  show ?thesis by blast
qed

text \<open>
  C1 as stated fails. The Collection is \<open>[b, a]\<close> and the query is \<open>"a b"\<close>: both
  conversations get the same score, and \<open>a\<close>, at position 1 of the Collection, is
  returned before \<open>b\<close>, at position 0, because the token \<open>a\<close> is scored first.
\<close>

theorem search_ties_counterexample:
  "search (\<lambda>c. [c]) (build_index (\<lambda>c. [c])
     [simple_conv ''b'' (Some 200) ''x'', simple_conv ''a'' (Some 100) ''x''])
     (ustr ''a b'') 10 None None
   = [(simple_conv ''a'' (Some 100) ''x'', (ln (3 / 2) + 1) / 2),
      (simple_conv ''b'' (Some 200) ''x'', (ln (3 / 2) + 1) / 2)]"
  by (simp add: text_eval index_eval search_eval)

section \<open>Properties of the flattener\<close>

lemma py_strip_empty_iff: "py_strip s = [] \<longleftrightarrow> list_all py_isspace s"
proof
  assume "py_strip s = []"
  then have "dropWhile py_isspace (rev (dropWhile py_isspace s)) = []"
    by (simp add: py_strip_def)
  then have "\<forall>c \<in> set (dropWhile py_isspace s). py_isspace c"
    by (simp add: dropWhile_eq_Nil_conv)
  then have "dropWhile py_isspace s = []"
    using hd_dropWhile [of py_isspace s] by (metis hd_in_set)
  then show "list_all py_isspace s"
    by (simp add: dropWhile_eq_Nil_conv list_all_iff)
next
  assume "list_all py_isspace s"
  then have d: "dropWhile py_isspace s = []"
    by (simp add: dropWhile_eq_Nil_conv list_all_iff)
  show "py_strip s = []" unfolding py_strip_def d by simp
qed

lemma falsy_content_blank: "\<not> content_truthy content \<Longrightarrow> extract_text content = Inr []"
  by (cases content) (auto simp: join_texts_def)

text \<open>
  A node that does not make the loop raise adds what the specification says it emits; and
  whether a node raises does not depend on the messages collected so far.
\<close>

lemma visit_node_spec:
  "visit_node node msgs
     = (case visit_node node [] of Inl e \<Rightarrow> Inl e | Inr _ \<Rightarrow> Inr (msgs @ spec_emits node))"
proof (cases "node_message node")
  case None
  then show ?thesis by (simp add: visit_node_def spec_emits_def)
next
  case (Some m)
  show ?thesis
  proof (cases "msg_content m")
    case None
    with Some show ?thesis by (simp add: visit_node_def spec_emits_def)
  next
    case (Some content)
    show ?thesis
    proof (cases "content_truthy content")
      case False
      from falsy_content_blank [OF this] False \<open>node_message node = Some m\<close> Some
      show ?thesis
        by (simp add: visit_node_def spec_emits_def split: sum.splits)
    next
      case True
      with \<open>node_message node = Some m\<close> Some show ?thesis
        by (simp add: visit_node_def spec_emits_def py_strip_empty_iff split: sum.splits)
    qed
  qed
qed

lemma walk_first_child_path:
  "first_child_path mapping c p \<Longrightarrow> [] \<notin> set p \<Longrightarrow> length p \<le> fuel \<Longrightarrow>
   \<forall>c \<in> set p. \<exists>out. visit_node (dict_get mapping c empty_node) [] = Inr out \<Longrightarrow>
   walk fuel mapping (Some c) msgs
     = Some (Inr (msgs @ concat (map (\<lambda>c. spec_emits (dict_get mapping c empty_node)) p)))"
proof (induction arbitrary: fuel msgs rule: first_child_path.induct)
  case (path_end c)
  then obtain k where "fuel = Suc k" by (cases fuel) auto
  moreover from path_end.prems obtain out where
    "visit_node (dict_get mapping c empty_node) [] = Inr out" by auto
  then have "visit_node (dict_get mapping c empty_node) msgs
      = Inr (msgs @ spec_emits (dict_get mapping c empty_node))"
    by (simp add: visit_node_spec [of _ msgs])
  ultimately show ?case using path_end
    by (simp add: Let_def first_child_def)
next
  case (path_step c child others p)
  then obtain k where k: "fuel = Suc k" by (cases fuel) auto
  from path_step.prems have p: "length p \<le> k" "[] \<notin> set p" "c \<noteq> []"
    and ok: "\<forall>c \<in> set p. \<exists>out. visit_node (dict_get mapping c empty_node) [] = Inr out"
    using k by auto
  from path_step.prems obtain out where
    "visit_node (dict_get mapping c empty_node) [] = Inr out" by auto
  then have v: "visit_node (dict_get mapping c empty_node) msgs
      = Inr (msgs @ spec_emits (dict_get mapping c empty_node))"
    by (simp add: visit_node_spec [of _ msgs])
  from path_step.IH [OF p(2,1) ok, of "msgs @ spec_emits (dict_get mapping c empty_node)"]
    path_step.hyps(1) k p(3) v
  show ?case
    by (simp add: Let_def first_child_def)
qed

text \<open>
  What the walk does where the empty id and the exceptions stay out: for a mapping with a
  root, whose chain of first children from the root is finite, passes through non-empty node
  ids only and holds no node on which the loop raises, the flattener returns, and the
  flattened sequence consists exactly of the messages along the path that starts at the root
  and descends into the first listed child at each step, each node emitting as the
  specification says.
\<close>

lemma flatten_follows_first_children:
  assumes "find_root mapping mapping = Some root_id"
    and "first_child_path mapping root_id p"
    and "[] \<notin> set p"
    and "\<forall>c \<in> set p. \<exists>out. visit_node (dict_get mapping c empty_node) [] = Inr out"
  shows "\<exists>n. \<forall>fuel \<ge> n. flatten_message_tree fuel mapping
           = Some (Inr (concat (map (\<lambda>c. spec_emits (dict_get mapping c empty_node)) p)))"
proof -
  have "\<forall>fuel \<ge> length p. flatten_message_tree fuel mapping
      = Some (Inr (concat (map (\<lambda>c. spec_emits (dict_get mapping c empty_node)) p)))"
    using assms(1) walk_first_child_path [OF assms(2,3) _ assms(4), of _ "[]"]
    by (simp add: flatten_message_tree_def)
  then show ?thesis by blast
qed

lemma flatten_follows_first_children_example:
  "\<exists>n. \<forall>fuel \<ge> n. flatten_message_tree fuel
      [(ustr ''r'', user_node ''hi'' None [ustr ''a'', ustr ''b'']),
       (ustr ''a'', user_node ''first'' (Some (ustr ''r'')) []),
       (ustr ''b'', user_node ''second'' (Some (ustr ''r'')) [])]
    = Some (Inr [\<lparr>role = ustr ''user'', text = ustr ''hi'', timestamp = None\<rparr>,
                 \<lparr>role = ustr ''user'', text = ustr ''first'', timestamp = None\<rparr>])"
proof -
  let ?m = "[(ustr ''r'', user_node ''hi'' None [ustr ''a'', ustr ''b'']),
       (ustr ''a'', user_node ''first'' (Some (ustr ''r'')) []),
       (ustr ''b'', user_node ''second'' (Some (ustr ''r'')) [])]"
  have h1: "find_root ?m ?m = Some (ustr ''r'')"
    by (simp add: user_node_def ustr_def)
  have a: "first_child_path ?m (ustr ''a'') [ustr ''a'']"
    by (rule path_end) (simp add: dict_get_def user_node_def ustr_def)
  have h2: "first_child_path ?m (ustr ''r'') [ustr ''r'', ustr ''a'']"
    by (rule path_step [where others = "[ustr ''b'']", OF _ a])
       (simp add: dict_get_def user_node_def ustr_def)
  have h3: "[] \<notin> set [ustr ''r'', ustr ''a'']" by (simp add: ustr_def)
  have h4: "\<forall>c \<in> set [ustr ''r'', ustr ''a''].
      \<exists>out. visit_node (dict_get ?m c empty_node) [] = Inr out"
    by (simp add: visit_node_def dict_get_def user_node_def ustr_def role_of_author_def)
  have ev: "concat (map (\<lambda>c. spec_emits (dict_get ?m c empty_node)) [ustr ''r'', ustr ''a''])
      = [\<lparr>role = ustr ''user'', text = ustr ''hi'', timestamp = None\<rparr>,
         \<lparr>role = ustr ''user'', text = ustr ''first'', timestamp = None\<rparr>]"
    by (simp add: spec_emits_def dict_get_def user_node_def ustr_def role_of_author_def
        known_roles_def py_isspace_def)
  from flatten_follows_first_children [OF h1 h2 h3 h4] show ?thesis unfolding ev .
qed

text \<open>
  C6 fails on the code. In the mapping whose only node has the empty string as its id and
  carries a user message, that node is the root (its parent is absent), the path from it is
  the node alone, and by the claim it emits its message; but the loop \<open>while current_id:\<close>
  takes the empty id for the end of the walk and returns no message at all.
\<close>

theorem flatten_skips_empty_root_id:
  "find_root [([], user_node ''hi'' None [])] [([], user_node ''hi'' None [])] = Some []
   \<and> first_child_path [([], user_node ''hi'' None [])] [] [Nil]
   \<and> spec_emits (dict_get [([], user_node ''hi'' None [])] [] empty_node)
       = [\<lparr>role = ustr ''user'', text = ustr ''hi'', timestamp = None\<rparr>]
   \<and> flatten_message_tree 10 [([], user_node ''hi'' None [])] = Some (Inr [])"
proof (intro conjI)
  show "find_root [([], user_node ''hi'' None [])] [([], user_node ''hi'' None [])] = Some []"
    by (simp add: user_node_def)
  show "first_child_path [([], user_node ''hi'' None [])] [] [Nil]"
    by (rule path_end) (simp add: dict_get_def user_node_def)
  show "spec_emits (dict_get [([], user_node ''hi'' None [])] [] empty_node)
       = [\<lparr>role = ustr ''user'', text = ustr ''hi'', timestamp = None\<rparr>]"
    by (simp add: spec_emits_def dict_get_def user_node_def ustr_def role_of_author_def
        known_roles_def py_isspace_def)
  show "flatten_message_tree 10 [([], user_node ''hi'' None [])] = Some (Inr [])"
    by (simp add: flatten_message_tree_def user_node_def eval_nat_numeral)
qed

text \<open>
  The same mapping with a non-empty id gives the message, and a first child with the empty
  id ends the walk before the child is visited.
\<close>

lemma flatten_visits_named_root:
  "flatten_message_tree 10 [(ustr ''r'', user_node ''hi'' None [])]
     = Some (Inr [\<lparr>role = ustr ''user'', text = ustr ''hi'', timestamp = None\<rparr>])"
  by (simp add: flatten_message_tree_def user_node_def eval_nat_numeral dict_get_def
      visit_node_def role_of_author_def known_roles_def py_strip_def py_isspace_def
      first_child_def ustr_def)

lemma flatten_skips_empty_child_id:
  "flatten_message_tree 10
     [(ustr ''r'', user_node ''hi'' None [Nil]), ([], user_node ''child'' (Some (ustr ''r'')) [])]
     = Some (Inr [\<lparr>role = ustr ''user'', text = ustr ''hi'', timestamp = None\<rparr>])"
  by (simp add: flatten_message_tree_def user_node_def eval_nat_numeral dict_get_def
      visit_node_def role_of_author_def known_roles_def py_strip_def py_isspace_def
      first_child_def ustr_def)

text \<open>
  Where the code raises: a content whose \<open>"parts"\<close> is \<open>null\<close> (\<open>TypeError\<close>), and a message
  whose \<open>"author"\<close> is \<open>null\<close> (\<open>AttributeError\<close>).
\<close>

lemma flatten_null_parts_raises:
  "flatten_message_tree (Suc fuel)
     [(ustr ''r'', RawNode None []
         (Some (RawMessage (Present (RawAuthor (Some (ustr ''user''))))
            (Some (ContentObj False Null)) None)))]
     = Some (Inl TypeError)"
  by (simp add: flatten_message_tree_def dict_get_def visit_node_def role_of_author_def
      ustr_def)

lemma flatten_null_author_raises:
  "flatten_message_tree (Suc fuel)
     [(ustr ''r'', RawNode None [] (Some (RawMessage Null (Some (ContentStr (ustr ''hi''))) None)))]
     = Some (Inl AttributeError)"
  by (simp add: flatten_message_tree_def dict_get_def visit_node_def role_of_author_def
      ustr_def)

text \<open>A first child that is its own first child: the walk never returns, whatever the fuel.\<close>

lemma walk_self_loop_never_returns:
  "walk fuel [(ustr ''a'', RawNode None [ustr ''a''] None)] (Some (ustr ''a'')) msgs = None"
proof (induction fuel arbitrary: msgs)
  case 0
  show ?case by (simp add: ustr_def)
next
  case (Suc fuel)
  have "visit_node (dict_get [(ustr ''a'', RawNode None [ustr ''a''] None)] (ustr ''a'') empty_node)
      msgs = Inr msgs"
    by (simp add: visit_node_def dict_get_def)
  moreover have "first_child (dict_get [(ustr ''a'', RawNode None [ustr ''a''] None)] (ustr ''a'')
      empty_node) = Some (ustr ''a'')"
    by (simp add: first_child_def dict_get_def)
  moreover have "ustr ''a'' \<noteq> []" by (simp add: ustr_def)
  ultimately show ?case using Suc [of msgs]
    by (simp add: Let_def del: walk.simps(3) add: walk.simps(3) [of fuel])
qed

lemma flatten_self_loop_never_returns:
  "flatten_message_tree fuel [(ustr ''a'', RawNode None [ustr ''a''] None)] = None"
  using walk_self_loop_never_returns [of fuel "[]"]
  by (simp add: flatten_message_tree_def del: walk.simps)

text \<open>The roles of the messages the tree flattener returns.\<close>

lemma visit_node_roles_known:
  "visit_node node msgs = Inr out \<Longrightarrow> \<forall>m \<in> set msgs. role m \<in> set known_roles \<Longrightarrow>
   \<forall>m \<in> set out. role m \<in> set known_roles"
  by (auto simp: visit_node_def split: option.splits if_splits sum.splits)

lemma walk_roles_known:
  "walk fuel mapping current msgs = Some (Inr out) \<Longrightarrow>
   \<forall>m \<in> set msgs. role m \<in> set known_roles \<Longrightarrow> \<forall>m \<in> set out. role m \<in> set known_roles"
proof (induction fuel mapping current msgs rule: walk.induct)
  case (1 fuel mapping msgs)
  then show ?case by simp
next
  case (2 mapping current_id msgs)
  then show ?case by (simp split: if_splits)
next
  case (3 fuel mapping current_id msgs)
  show ?case
  proof (cases "current_id = []")
    case True
    with 3 show ?thesis by simp
  next
    case False
    let ?node = "dict_get mapping current_id empty_node"
    show ?thesis
    proof (cases "visit_node ?node msgs")
      case (Inl e)
      with 3(2) False show ?thesis by (simp add: Let_def)
    next
      case (Inr msgs')
      with 3(2) False have w: "walk fuel mapping (first_child ?node) msgs' = Some (Inr out)"
        by (simp add: Let_def)
      from visit_node_roles_known [OF Inr 3(3)]
      have "\<forall>m \<in> set msgs'. role m \<in> set known_roles" .
      from 3(1) [OF False refl Inr w this] show ?thesis .
    qed
  qed
qed

lemma flatten_roles_known:
  "flatten_message_tree fuel mapping = Some (Inr out) \<Longrightarrow>
   \<forall>m \<in> set out. role m \<in> set known_roles"
  using walk_roles_known [of fuel mapping _ "[]" out]
  by (auto simp: flatten_message_tree_def split: option.splits)

text \<open>
  C7 fails on the code. An entry without a mapping, whose flat \<open>messages\<close> array holds a
  message without a role, yields a Message with the role \<open>unknown\<close> in the Collection: the
  fallback does not test the role, while the tree flattener does (\<open>flatten_roles_known\<close>).
\<close>

theorem flat_fallback_unknown_role:
  "parse_chatgpt_export 0
     [RawEntry (Some (ustr ''c1'')) None (Some (ustr ''Chat'')) None None None []
        (Present [Some (FlatMessage None Absent (Some (ContentStr (ustr ''hello''))) None)])]
   = Some (Inr [\<lparr>conv_id = ustr ''c1'', title = ustr ''Chat'', create_time = None,
             update_time = None,
             messages = [\<lparr>role = ustr ''unknown'', text = ustr ''hello'', timestamp = None\<rparr>],
             model_slug = []\<rparr>])
   \<and> ustr ''unknown'' \<notin> set known_roles"
  by (simp add: parse_chatgpt_export_def entry_messages_of_def conversation_of_def
      role_of_author_def known_roles_def py_sort_reverse_def py_strip_def py_isspace_def ustr_def)

section \<open>Properties of the parser and the Collection\<close>

lemmas parse_eval = parse_chatgpt_export_def entry_messages_of_def conversation_of_def
  role_of_author_def py_sort_reverse_def py_strip_def py_isspace_def time_or_0_def flat_entry_def
lemmas date_eval = parse_date_def strptime_ymd_def match_month_def match_day_def two_chars_def
  is_digit_def digit_val_def py_strip_def py_isspace_def ymd2ord_def days_before_year_def
  days_before_month_def is_leap_def days_in_month_def

text \<open>More fuel does not change a result.\<close>

lemma walk_fuel_mono:
  "walk fuel mapping current msgs = Some r \<Longrightarrow> walk (Suc fuel) mapping current msgs = Some r"
proof (induction fuel mapping current msgs rule: walk.induct)
  case (1 fuel mapping msgs)
  then show ?case by simp
next
  case (2 mapping current_id msgs)
  then show ?case by (simp split: if_splits)
next
  case (3 fuel mapping current_id msgs)
  show ?case
  proof (cases "current_id = []")
    case True
    with 3(2) show ?thesis by simp
  next
    case False
    let ?node = "dict_get mapping current_id empty_node"
    show ?thesis
    proof (cases "visit_node ?node msgs")
      case (Inl e)
      with False have "walk (Suc (Suc fuel)) mapping (Some current_id) msgs = Some (Inl e)"
        by (simp add: Let_def)
      moreover from 3(2) False Inl have "r = Inl e" by (simp add: Let_def)
      ultimately show ?thesis by simp
    next
      case (Inr msgs')
      with 3(2) False have "walk fuel mapping (first_child ?node) msgs' = Some r"
        by (simp add: Let_def)
      from 3(1) [OF False refl Inr this] False Inr show ?thesis
        by (simp add: Let_def)
    qed
  qed
qed

lemma flatten_fuel_mono:
  "flatten_message_tree fuel mapping = Some r \<Longrightarrow>
   flatten_message_tree (Suc fuel) mapping = Some r"
  by (auto simp: flatten_message_tree_def simp del: walk.simps split: option.splits
      intro: walk_fuel_mono)

lemma entry_messages_fuel_mono:
  "entry_messages_of fuel entry = Some r \<Longrightarrow> entry_messages_of (Suc fuel) entry = Some r"
  by (auto simp: entry_messages_of_def flatten_fuel_mono split: if_splits)

lemma parse_loop_fuel_mono:
  "parse_loop fuel entries acc = Some r \<Longrightarrow> parse_loop (Suc fuel) entries acc = Some r"
proof (induction entries arbitrary: acc)
  case Nil
  then show ?case by simp
next
  case (Cons e es)
  then show ?case
    by (auto simp: entry_messages_fuel_mono split: option.splits sum.splits)
qed

lemma parse_fuel_mono:
  "parse_chatgpt_export fuel raw_json = Some r \<Longrightarrow>
   parse_chatgpt_export (fuel + k) raw_json = Some r"
proof (induction k)
  case 0
  then show ?case by simp
next
  case (Suc k)
  then show ?case
    by (auto simp: parse_chatgpt_export_def parse_loop_fuel_mono split: option.splits sum.splits)
qed

text \<open>The parser returns whenever the messages of every entry are returned.\<close>

lemma entry_messages_fuel_le:
  assumes "fuel \<le> fuel'" and "entry_messages_of fuel entry = Some r"
  shows "entry_messages_of fuel' entry = Some r"
  using assms by (induction rule: dec_induct) (simp_all add: entry_messages_fuel_mono)

lemma parse_loop_fuel_le:
  assumes "fuel \<le> fuel'" and "parse_loop fuel entries acc = Some r"
  shows "parse_loop fuel' entries acc = Some r"
  using assms by (induction rule: dec_induct) (simp_all add: parse_loop_fuel_mono)

lemma parse_loop_returns:
  "\<forall>e \<in> set entries. \<exists>fuel msgs. entry_messages_of fuel e = Some (Inr msgs) \<Longrightarrow>
   \<exists>fuel. \<forall>acc. \<exists>convs. parse_loop fuel entries acc = Some (Inr convs)"
proof (induction entries)
  case Nil
  show ?case by simp
next
  case (Cons e es)
  from Cons.prems obtain f1 msgs where f1: "entry_messages_of f1 e = Some (Inr msgs)" by auto
  from Cons obtain f2 where f2: "\<forall>acc. \<exists>convs. parse_loop f2 es acc = Some (Inr convs)" by auto
  have "\<exists>convs. parse_loop (max f1 f2) (e # es) acc = Some (Inr convs)" for acc
  proof -
    have e: "entry_messages_of (max f1 f2) e = Some (Inr msgs)"
      using entry_messages_fuel_le [OF _ f1, of "max f1 f2"] by simp
    from f2 obtain convs where
      "parse_loop f2 es (if msgs \<noteq> [] then acc @ [conversation_of e msgs] else acc)
         = Some (Inr convs)"
      by blast
    from parse_loop_fuel_le [OF _ this, of "max f1 f2"] e show ?thesis by simp
  qed
  then show ?case by blast
qed

lemma parse_returns:
  "\<forall>e \<in> set raw_json. \<exists>fuel msgs. entry_messages_of fuel e = Some (Inr msgs) \<Longrightarrow>
   \<exists>fuel convs. parse_chatgpt_export fuel raw_json = Some (Inr convs)"
proof -
  assume "\<forall>e \<in> set raw_json. \<exists>fuel msgs. entry_messages_of fuel e = Some (Inr msgs)"
  from parse_loop_returns [OF this] obtain fuel convs where
    "parse_loop fuel raw_json [] = Some (Inr convs)" by blast
  then have "parse_chatgpt_export fuel raw_json
      = Some (Inr (py_sort_reverse (\<lambda>c. time_or_0 (create_time c)) convs))"
    by (simp add: parse_chatgpt_export_def)
  then show ?thesis by blast
qed

text \<open>
  C8 (amended). After parsing, the Collection is sorted in descending order of create_time,
  with every conversation lacking a create_time ordered as if its create_time were zero (thus
  behind every conversation with a positive create_time), and this ordering is the one used
  for pagination and for the positions the index and the search refer to. (It is not, in
  general, the order of equal scores in a search result.)
\<close>

theorem collection_sorted_newest_first:
  assumes "parse_chatgpt_export fuel raw_json = Some (Inr convs)"
  shows "sorted_wrt (\<lambda>a b. time_or_0 (create_time a) \<ge> time_or_0 (create_time b)) convs
         \<and> (\<forall>i j. i < length convs \<and> j < length convs \<and> create_time (convs ! i) = None
               \<and> 0 < time_or_0 (create_time (convs ! j)) \<longrightarrow> j < i)
         \<and> (convs \<noteq> [] \<and> 0 \<le> offset \<and> 1 \<le> limit \<longrightarrow>
               page (chatgpt_list_conversations convs offset limit)
                 = take (nat limit) (drop (nat offset) convs))
         \<and> conversations (build_index tbl convs) = convs"
proof -
  from assms obtain unsorted where
    "convs = py_sort_reverse (\<lambda>c. time_or_0 (create_time c)) unsorted"
    by (auto simp: parse_chatgpt_export_def split: option.splits sum.splits)
  then have sorted: "sorted_wrt (\<lambda>a b. time_or_0 (create_time a) \<ge> time_or_0 (create_time b)) convs"
    by (simp add: py_sort_reverse_descending)
  have last: "j < i"
    if "i < length convs" "j < length convs" "create_time (convs ! i) = None"
      "0 < time_or_0 (create_time (convs ! j))" for i j
  proof (rule ccontr)
    assume "\<not> j < i"
    with that(3,4) have "i < j" by (cases "i = j") (auto simp: time_or_0_def)
    with sorted that(2)
    have "time_or_0 (create_time (convs ! i)) \<ge> time_or_0 (create_time (convs ! j))"
      by (simp add: sorted_wrt_iff_nth_less)
    with that(3,4) show False by (simp add: time_or_0_def)
  qed
  have "page (chatgpt_list_conversations convs offset limit)
      = take (nat limit) (drop (nat offset) convs)"
    if "convs \<noteq> []" "0 \<le> offset" "1 \<le> limit"
    using that py_slice_page [OF that(2,3), of convs]
    by (simp add: chatgpt_list_conversations_def Let_def)
  moreover have "conversations (build_index tbl convs) = convs"
    by (simp add: build_index_def)
  ultimately show ?thesis using sorted last by blast
qed

theorem collection_sorted_newest_first_witness:
  "parse_chatgpt_export 0
     [flat_entry ''a'' (Some 100) ''x'', flat_entry ''n'' None ''x'',
      flat_entry ''b'' (Some 200) ''x'']
   = Some (Inr [simple_conv ''b'' (Some 200) ''x'', simple_conv ''a'' (Some 100) ''x'',
           simple_conv ''n'' None ''x''])
   \<and> sorted_wrt (\<lambda>a b. time_or_0 (create_time a) \<ge> time_or_0 (create_time b))
       [simple_conv ''b'' (Some 200) ''x'', simple_conv ''a'' (Some 100) ''x'',
        simple_conv ''n'' None ''x'']"
proof -
  have ev: "parse_chatgpt_export 0
     [flat_entry ''a'' (Some 100) ''x'', flat_entry ''n'' None ''x'',
      flat_entry ''b'' (Some 200) ''x'']
   = Some (Inr [simple_conv ''b'' (Some 200) ''x'', simple_conv ''a'' (Some 100) ''x'',
           simple_conv ''n'' None ''x''])"
    by (simp add: parse_eval simple_conv_def ustr_def)
  from collection_sorted_newest_first [OF ev] ev show ?thesis by blast
qed

text \<open>
  C8 as stated fails in its last clause. The parsed Collection is \<open>[b, a]\<close>; the query
  \<open>"a b"\<close> gives both conversations the same score and returns \<open>a\<close> before \<open>b\<close>, while the
  query \<open>"b a"\<close> returns \<open>b\<close> before \<open>a\<close>: the order of the tokens decides, not the
  order of the Collection.
\<close>

theorem collection_order_ties_counterexample:
  "parse_chatgpt_export 0 [flat_entry ''a'' (Some 100) ''x'', flat_entry ''b'' (Some 200) ''x'']
     = Some (Inr [simple_conv ''b'' (Some 200) ''x'', simple_conv ''a'' (Some 100) ''x''])
   \<and> map fst (search (\<lambda>c. [c])
        (build_index (\<lambda>c. [c])
           [simple_conv ''b'' (Some 200) ''x'', simple_conv ''a'' (Some 100) ''x''])
        (ustr ''b a'') 5 None None)
     = [simple_conv ''b'' (Some 200) ''x'', simple_conv ''a'' (Some 100) ''x'']
   \<and> map fst (search (\<lambda>c. [c])
        (build_index (\<lambda>c. [c])
           [simple_conv ''b'' (Some 200) ''x'', simple_conv ''a'' (Some 100) ''x''])
        (ustr ''a b'') 5 None None)
     = [simple_conv ''a'' (Some 100) ''x'', simple_conv ''b'' (Some 200) ''x'']
   \<and> map snd (search (\<lambda>c. [c])
        (build_index (\<lambda>c. [c])
           [simple_conv ''b'' (Some 200) ''x'', simple_conv ''a'' (Some 100) ''x''])
        (ustr ''a b'') 5 None None)
     = [(ln (3 / 2) + 1) / 2, (ln (3 / 2) + 1) / 2]"
proof (intro conjI)
  show "parse_chatgpt_export 0
      [flat_entry ''a'' (Some 100) ''x'', flat_entry ''b'' (Some 200) ''x'']
     = Some (Inr [simple_conv ''b'' (Some 200) ''x'', simple_conv ''a'' (Some 100) ''x''])"
    by (simp add: parse_eval simple_conv_def ustr_def)
qed (simp_all add: text_eval index_eval search_eval)

section \<open>Date filter\<close>

lemma date_filter_characterisation:
  "passes convs (date_bound date_from) (date_bound date_to) (idx, score) \<longleftrightarrow>
     \<not> ((\<exists>f. date_bound date_from = Some f \<and> f \<noteq> 0 \<and> time_or_0 (create_time (convs ! idx)) < f)
        \<or> (\<exists>t. date_bound date_to = Some t \<and> t \<noteq> 0 \<and> t < time_or_0 (create_time (convs ! idx))))"
  by (auto simp: passes_def skipped_def split: option.splits)

lemma date_filter_applies_example:
  "parse_date (ustr ''2024-03-01'') = Some 1709251200
   \<and> search (\<lambda>c. [c]) (build_index (\<lambda>c. [c]) [simple_conv ''x'' (Some 1717200000) ''x''])
       (ustr ''x'') 10 None (Some (ustr ''2024-03-01'')) = []"
  by (simp add: date_eval text_eval index_eval search_eval)

text \<open>
  C3 fails on the code. The bound \<open>date_to = "1970-01-01"\<close> parses to 0, which the test
  \<open>if ts_to and ts > ts_to\<close> takes for an absent bound: a conversation created on 2024-01-01,
  strictly after the parsed bound, is returned. For a bound that does not parse to 0 the
  tests are as claimed (\<open>date_filter_characterisation\<close>, \<open>date_filter_applies_example\<close>).
\<close>

theorem date_to_epoch_not_applied:
  "parse_date (ustr ''1970-01-01'') = Some 0
   \<and> search (\<lambda>c. [c]) (build_index (\<lambda>c. [c]) [simple_conv ''x'' (Some 1704067200) ''x''])
       (ustr ''x'') 10 None (Some (ustr ''1970-01-01''))
     = [(simple_conv ''x'' (Some 1704067200) ''x'', 2)]"
  by (simp add: date_eval text_eval index_eval search_eval)

end
